theory Spec2Isabelle
  imports Main "HOL-Library.Product_Lexorder" "HOL-Library.Monad_Syntax"
begin

section \<open>Strings\<close>

text \<open>
  A Python \<open>str\<close> is a sequence of Unicode code points; a code point is a natural
  number, so that \<open>len\<close> and slicing count what Python counts. ASCII literals of the
  source are written through \<open>asc\<close>.
\<close>

type_synonym ustr = "nat list"

definition asc :: "string \<Rightarrow> ustr" where
  "asc s = map of_char s"

text \<open>\<open>str.isspace\<close> for one code point: the code points Python treats as whitespace.\<close>

definition py_isspace :: "nat \<Rightarrow> bool" where
  "py_isspace c =
     ((9 \<le> c \<and> c \<le> 13) \<or> (28 \<le> c \<and> c \<le> 32) \<or> c = 133 \<or> c = 160 \<or> c = 5760
      \<or> (8192 \<le> c \<and> c \<le> 8202) \<or> c = 8232 \<or> c = 8233 \<or> c = 8239 \<or> c = 8287
      \<or> c = 12288)"

text \<open>\<open>s.strip()\<close>: drop leading and trailing whitespace.\<close>

definition strip :: "ustr \<Rightarrow> ustr" where
  "strip s = rev (dropWhile py_isspace (rev (dropWhile py_isspace s)))"

text \<open>\<open>a or b\<close> on strings: the empty string is falsy.\<close>

definition py_or :: "ustr \<Rightarrow> ustr \<Rightarrow> ustr" where
  "py_or a b = (if a = [] then b else a)"

text \<open>\<open>sep.join(xs)\<close>.\<close>

fun join :: "ustr \<Rightarrow> ustr list \<Rightarrow> ustr" where
  "join sep [] = []"
| "join sep [x] = x"
| "join sep (x # y # ys) = x @ sep @ join sep (y # ys)"

section \<open>Tokenizer adapter\<close>

text \<open>
  One morpheme of the external analyzer (\<open>_sudachi.tokenize(text, _mode)\<close>): the values
  of \<open>m.surface()\<close>, \<open>m.reading_form()\<close>, \<open>m.begin()\<close> and \<open>m.end()\<close>. The analyzer itself
  is a parameter \<open>tok\<close> of every function that calls it.
\<close>

record morpheme =
  surface :: ustr
  reading_form :: ustr
  mbegin :: nat
  mend :: nat

type_synonym analyzer = "ustr \<Rightarrow> morpheme list"

text \<open>\<open>tokenize_surface\<close> (all files): the stripped surfaces that are not blank.\<close>

definition tokenize_surface :: "analyzer \<Rightarrow> ustr \<Rightarrow> ustr list" where
  "tokenize_surface tok q = filter (\<lambda>w. w \<noteq> []) (map (\<lambda>m. strip (surface m)) (tok q))"

text \<open>\<open>tokenize_reading\<close> of search.py, app\_ui.py and play\_snippet.py (query path).\<close>

definition tokenize_reading :: "analyzer \<Rightarrow> ustr \<Rightarrow> ustr list" where
  "tokenize_reading tok q =
     filter (\<lambda>r. r \<noteq> []) (map (\<lambda>m. strip (py_or (reading_form m) (surface m))) (tok q))"

text \<open>\<open>tokenize_reading_kana\<close> of build\_index.py (indexing path, command line).\<close>

definition reading_kana :: "morpheme \<Rightarrow> ustr" where
  "reading_kana m =
     (let r = reading_form m;
          r = (if r = [] \<or> r = asc ''*'' then surface m else r)
      in strip r)"

definition tokenize_reading_kana :: "analyzer \<Rightarrow> ustr \<Rightarrow> ustr list" where
  "tokenize_reading_kana tok text = filter (\<lambda>r. r \<noteq> []) (map reading_kana (tok text))"

text \<open>\<open>tokenize_reading_kana\<close> of indexer\_gui.py (indexing path, graphical indexer).\<close>

definition tokenize_reading_kana_gui :: "analyzer \<Rightarrow> ustr \<Rightarrow> ustr list" where
  "tokenize_reading_kana_gui tok text =
     filter (\<lambda>r. r \<noteq> [])
       (map (\<lambda>m. strip (py_or (py_or (reading_form m) (surface m)) [])) (tok text))"

section \<open>Query compiler\<close>

text \<open>\<open>t.replace('"', '').replace("'", "")\<close>.\<close>

definition strip_quotes :: "ustr \<Rightarrow> ustr" where
  "strip_quotes t = filter (\<lambda>c. c \<noteq> 39) (filter (\<lambda>c. c \<noteq> 34) t)"

definition field_clause :: "string \<Rightarrow> ustr list \<Rightarrow> ustr" where
  "field_clause field ts = join (asc '' AND '') (map (\<lambda>t. asc field @ asc '':'' @ t) ts)"

text \<open>\<open>build_match_query\<close> (search.py, app\_ui.py, play\_snippet.py): \<open>None\<close> is Python's.\<close>

definition build_match_query :: "analyzer \<Rightarrow> ustr \<Rightarrow> ustr option" where
  "build_match_query tok query =
     (let s_tokens = map strip_quotes (tokenize_surface tok query);
          r_tokens = map strip_quotes (tokenize_reading tok query);
          parts = (if s_tokens \<noteq> [] then [field_clause ''text_tok'' s_tokens] else [])
                @ (if r_tokens \<noteq> [] then [field_clause ''reading_tok'' r_tokens] else [])
      in if parts = [] then None
         else Some (join (asc '' OR '')
                      (map (\<lambda>p. asc ''('' @ p @ asc '')'') (filter (\<lambda>p. p \<noteq> []) parts))))"

section \<open>Sample analyzers\<close>

text \<open>
  Analyzers for concrete runs: one reports the morpheme \<open>U+732B\<close> with the reading
  \<open>U+30CD U+30B3\<close>, another a morpheme \<open>a\<close> whose reading is one space, a third the morpheme
  \<open>U+732B\<close> with the reading \<open>*\<close>.
\<close>

definition tok_neko :: analyzer where
  "tok_neko q = [\<lparr>surface = [29483], reading_form = [12493, 12467], mbegin = 0, mend = 1\<rparr>]"

definition tok_blank_reading :: analyzer where
  "tok_blank_reading q = [\<lparr>surface = asc ''a'', reading_form = asc '' '', mbegin = 0, mend = 1\<rparr>]"

definition tok_star :: analyzer where
  "tok_star q = [\<lparr>surface = [29483], reading_form = asc ''*'', mbegin = 0, mend = 1\<rparr>]"

section \<open>Text normalizer\<close>

text \<open>
  \<open>unicodedata.normalize("NFKC", x)\<close> is the Unicode library's; it is the parameter
  \<open>nf\<close>. \<open>nfkc\<close> is the helper of that name in every file that has it.
\<close>

type_synonym normalizer = "ustr \<Rightarrow> ustr"

definition nfkc :: "normalizer \<Rightarrow> ustr \<Rightarrow> ustr" where
  "nfkc nf text = strip (nf text)"

text \<open>\<open>BIDI_CTRL_RE\<close>: the code points U+200E, U+200F, U+202A..U+202E and U+2066..U+2069.\<close>

definition bidi_ctrl :: "nat \<Rightarrow> bool" where
  "bidi_ctrl c = (c = 8206 \<or> c = 8207 \<or> (8234 \<le> c \<and> c \<le> 8238) \<or> (8294 \<le> c \<and> c \<le> 8297))"

definition clean_controls :: "ustr \<Rightarrow> ustr" where
  "clean_controls text = filter (\<lambda>c. \<not> bidi_ctrl c) text"

definition jp_clean :: "normalizer \<Rightarrow> ustr \<Rightarrow> ustr" where
  "jp_clean nf text = clean_controls (nfkc nf text)"

section \<open>Lyric files\<close>

text \<open>
  \<open>\d\<close> and \<open>int()\<close> read decimal digits through the Unicode database: the parameter
  \<open>dv\<close> gives the value of a code point that is a decimal digit. \<open>ascii_digit\<close> is the
  table restricted to \<open>0\<close>..\<open>9\<close>.
\<close>

type_synonym digit_table = "nat \<Rightarrow> nat option"

definition ascii_digit :: digit_table where
  "ascii_digit c = (if 48 \<le> c \<and> c \<le> 57 then Some (c - 48) else None)"

text \<open>\<open>int(s)\<close> for a string of decimal digits (the regex groups are nothing else).\<close>

definition py_int :: "digit_table \<Rightarrow> ustr \<Rightarrow> nat" where
  "py_int dv s = foldl (\<lambda>a c. 10 * a + (case dv c of Some d \<Rightarrow> d | None \<Rightarrow> 0)) 0 s"

text \<open>\<open>str(n)\<close> for an integer.\<close>

fun str_nat :: "nat \<Rightarrow> ustr" where
  "str_nat n = (if n < 10 then [48 + n] else str_nat (n div 10) @ [48 + n mod 10])"

declare str_nat.simps [simp del]

definition str_int :: "int \<Rightarrow> ustr" where
  "str_int i = (if i < 0 then asc ''-'' @ str_nat (nat (- i)) else str_nat (nat i))"

text \<open>
  The pattern \<open>\[(\d{1,2}):(\d{2})(?:[.:](\d{1,3}))?\]\<close>, matched at the head of a
  string: the three groups and the rest after the match. Greedy repetition tries the
  longest count first and backtracks to shorter ones; the optional group is tried before
  its omission.
\<close>

record tag_groups =
  group1 :: ustr
  group2 :: ustr
  group3 :: "ustr option"

definition expect :: "(nat \<Rightarrow> bool) \<Rightarrow> ustr \<Rightarrow> ustr option" where
  "expect P s = (case s of [] \<Rightarrow> None | c # r \<Rightarrow> if P c then Some r else None)"

definition digits_at :: "digit_table \<Rightarrow> nat \<Rightarrow> ustr \<Rightarrow> (ustr \<times> ustr) option" where
  "digits_at dv k s =
     (if k \<le> length s \<and> list_all (\<lambda>c. dv c \<noteq> None) (take k s)
      then Some (take k s, drop k s) else None)"

fun first_some :: "'a option list \<Rightarrow> 'a option" where
  "first_some [] = None"
| "first_some (Some x # _) = Some x"
| "first_some (None # xs) = first_some xs"

definition match_close :: "ustr \<Rightarrow> ustr \<Rightarrow> ustr option \<Rightarrow> ustr \<Rightarrow> (tag_groups \<times> ustr) option" where
  "match_close mm ss fr s = do {
     rest \<leftarrow> expect (\<lambda>c. c = 93) s;
     Some (\<lparr>group1 = mm, group2 = ss, group3 = fr\<rparr>, rest) }"

definition match_frac :: "digit_table \<Rightarrow> ustr \<Rightarrow> ustr \<Rightarrow> ustr \<Rightarrow> nat \<Rightarrow> (tag_groups \<times> ustr) option" where
  "match_frac dv mm ss s k = do {
     s1 \<leftarrow> expect (\<lambda>c. c = 46 \<or> c = 58) s;
     (fr, s2) \<leftarrow> digits_at dv k s1;
     match_close mm ss (Some fr) s2 }"

definition match_from_minutes :: "digit_table \<Rightarrow> ustr \<Rightarrow> nat \<Rightarrow> (tag_groups \<times> ustr) option" where
  "match_from_minutes dv s k = do {
     (mm, s1) \<leftarrow> digits_at dv k s;
     s2 \<leftarrow> expect (\<lambda>c. c = 58) s1;
     (ss, s3) \<leftarrow> digits_at dv 2 s2;
     first_some (map (match_frac dv mm ss s3) [3, 2, 1] @ [match_close mm ss None s3]) }"

definition match_time_tag :: "digit_table \<Rightarrow> ustr \<Rightarrow> (tag_groups \<times> ustr) option" where
  "match_time_tag dv s = do {
     s1 \<leftarrow> expect (\<lambda>c. c = 91) s;
     first_some (map (match_from_minutes dv s1) [2, 1]) }"

lemma expect_length: "expect P s = Some r \<Longrightarrow> length r < length s"
  by (auto simp: expect_def split: list.splits if_splits)

lemma digits_at_length: "digits_at dv k s = Some (d, r) \<Longrightarrow> length r \<le> length s"
  by (auto simp: digits_at_def split: if_splits)

lemma first_some_cases: "first_some xs = Some y \<Longrightarrow> Some y \<in> set xs"
  by (induction xs rule: first_some.induct) auto

lemma match_close_length: "match_close mm ss fr s = Some (g, r) \<Longrightarrow> length r < length s"
  by (auto simp: match_close_def split: bind_splits dest: expect_length)

lemma match_frac_length: "match_frac dv mm ss s k = Some (g, r) \<Longrightarrow> length r < length s"
  by (fastforce simp: match_frac_def split: bind_splits
      dest: expect_length digits_at_length match_close_length)

lemma match_from_minutes_length:
  assumes "match_from_minutes dv s k = Some (g, r)"
  shows "length r < length s"
proof -
  from assms obtain mm s1 s2 ss s3 where
    a: "digits_at dv k s = Some (mm, s1)" and
    b: "expect (\<lambda>c. c = 58) s1 = Some s2" and
    c: "digits_at dv 2 s2 = Some (ss, s3)" and
    d: "first_some (map (match_frac dv mm ss s3) [3, 2, 1] @ [match_close mm ss None s3])
          = Some (g, r)"
    by (auto simp: match_from_minutes_def split: bind_splits)
  from d have "Some (g, r) \<in> set (map (match_frac dv mm ss s3) [3, 2, 1] @ [match_close mm ss None s3])"
    by (rule first_some_cases)
  then have "length r < length s3"
    by (auto dest: match_frac_length [OF sym] match_close_length [OF sym])
  moreover have "length s3 \<le> length s2"
    using c by (rule digits_at_length)
  moreover have "length s2 < length s1"
    using b by (rule expect_length)
  moreover have "length s1 \<le> length s"
    using a by (rule digits_at_length)
  ultimately show ?thesis by simp
qed

lemma match_time_tag_length:
  assumes "match_time_tag dv s = Some (g, r)"
  shows "length r < length s"
proof -
  from assms obtain s1 where
    a: "expect (\<lambda>c. c = 91) s = Some s1" and
    b: "first_some (map (match_from_minutes dv s1) [2, 1]) = Some (g, r)"
    by (auto simp: match_time_tag_def split: bind_splits)
  from b have "Some (g, r) \<in> set (map (match_from_minutes dv s1) [2, 1])"
    by (rule first_some_cases)
  then have "length r < length s1"
    by (auto dest: match_from_minutes_length [OF sym])
  moreover have "length s1 < length s"
    using a by (rule expect_length)
  ultimately show ?thesis by simp
qed

text \<open>
  \<open>time_tag.finditer(line)\<close> and \<open>time_tag.sub("", line)\<close> walk the line the same way:
  a match at the current position is taken and the walk goes on after it, otherwise the
  character is kept and the walk moves one position on.
\<close>

function scan_tags :: "digit_table \<Rightarrow> ustr \<Rightarrow> tag_groups list \<times> ustr" where
  "scan_tags dv [] = ([], [])"
| "scan_tags dv (c # cs) =
     (case match_time_tag dv (c # cs) of
        Some (g, rest) \<Rightarrow> (case scan_tags dv rest of (ms, t) \<Rightarrow> (g # ms, t))
      | None \<Rightarrow> (case scan_tags dv cs of (ms, t) \<Rightarrow> (ms, c # t)))"
  by pat_completeness auto
termination
  by (relation "measure (\<lambda>(dv, s). length s)") (auto dest: match_time_tag_length)

definition finditer_tags :: "digit_table \<Rightarrow> ustr \<Rightarrow> tag_groups list" where
  "finditer_tags dv line = fst (scan_tags dv line)"

definition sub_tags :: "digit_table \<Rightarrow> ustr \<Rightarrow> ustr" where
  "sub_tags dv line = snd (scan_tags dv line)"

text \<open>
  An entry as the parsers build it and as the table \<open>entries\<close> stores it (the dictionary
  keys \<open>id\<close> and \<open>text\<close> are the fields \<open>e_id\<close> and \<open>e_text\<close>). A path is what the
  code reads from it: \<open>str(path)\<close> and \<open>path.stem\<close>.
\<close>

record entry =
  e_id :: ustr
  media_type :: ustr
  title :: ustr
  episode_or_track :: ustr
  media_path :: ustr
  source_path :: ustr
  start_ms :: int
  end_ms :: int
  e_text :: ustr
  context_prev :: ustr
  context_next :: ustr

record fspath =
  path_str :: ustr
  stem :: ustr

definition tag_start_ms :: "digit_table \<Rightarrow> tag_groups \<Rightarrow> int" where
  "tag_start_ms dv m =
     (let mm = int (py_int dv (group1 m)); ss = int (py_int dv (group2 m));
          ms = (case group3 m of None \<Rightarrow> 0
                | Some frac \<Rightarrow> int (py_int dv (take 3 (frac @ asc ''00''))))
      in (mm * 60 + ss) * 1000 + ms)"

definition lrc_entry :: "digit_table \<Rightarrow> fspath \<Rightarrow> ustr \<Rightarrow> tag_groups \<Rightarrow> entry" where
  "lrc_entry dv path text m =
     (let start = tag_start_ms dv m in
      \<lparr>e_id = path_str path @ asc ''|'' @ str_int start,
       media_type = asc ''song'',
       title = stem path,
       episode_or_track = [],
       media_path = [],
       source_path = path_str path,
       start_ms = start,
       end_ms = start + 3000,
       e_text = text,
       context_prev = [],
       context_next = []\<rparr>)"

definition lrc_line_entries :: "(ustr \<Rightarrow> ustr) \<Rightarrow> digit_table \<Rightarrow> fspath \<Rightarrow> ustr \<Rightarrow> entry list" where
  "lrc_line_entries clean dv path line =
     (let tags = finditer_tags dv line in
      if tags = [] then []
      else let text = strip (sub_tags dv line); text = clean text in
           if text = [] then [] else map (lrc_entry dv path text) tags)"

text \<open>The closing loop of both parsers: each entry gets its neighbours' texts.\<close>

definition set_context :: "entry list \<Rightarrow> entry list" where
  "set_context entries =
     map (\<lambda>i. (entries ! i)
            \<lparr>context_prev := (if i > 0 then e_text (entries ! (i - 1)) else []),
             context_next := (if i < length entries - 1 then e_text (entries ! (i + 1)) else [])\<rparr>)
       [0..<length entries]"

text \<open>
  \<open>parse_lrc\<close>, on the lines of the file (\<open>read_text_guess(path).splitlines()\<close>); the
  two files differ in the cleaning function only: \<open>nfkc\<close> in parse\_media.py,
  \<open>jp_clean\<close> in indexer\_gui.py. \<open>list.sort\<close> is stable, as \<open>sort_key\<close> is.
\<close>

definition parse_lrc_with :: "(ustr \<Rightarrow> ustr) \<Rightarrow> digit_table \<Rightarrow> fspath \<Rightarrow> ustr list \<Rightarrow> entry list" where
  "parse_lrc_with clean dv path lines =
     set_context (sort_key start_ms (concat (map (lrc_line_entries clean dv path) lines)))"

definition parse_lrc :: "normalizer \<Rightarrow> digit_table \<Rightarrow> fspath \<Rightarrow> ustr list \<Rightarrow> entry list" where
  "parse_lrc nf = parse_lrc_with (nfkc nf)"

definition parse_lrc_gui :: "normalizer \<Rightarrow> digit_table \<Rightarrow> fspath \<Rightarrow> ustr list \<Rightarrow> entry list" where
  "parse_lrc_gui nf = parse_lrc_with (jp_clean nf)"

text \<open>The text \<open>U+3053 U+3093 U+306B U+3061 U+306F\<close> and the line \<open>[01:02.50]\<close> before it.\<close>

definition konnichiwa :: ustr where
  "konnichiwa = [12371, 12435, 12395, 12385, 12399]"

definition lrc_line :: ustr where
  "lrc_line = asc ''[01:02.50]'' @ konnichiwa"

definition song_path :: fspath where
  "song_path = \<lparr>path_str = asc ''songs/a.lrc'', stem = asc ''a''\<rparr>"

text \<open>A line with two timestamp tags, the second with a one-digit fraction.\<close>

definition two_tag_line :: ustr where
  "two_tag_line = asc ''[00:05][00:01.5]b''"

text \<open>
  What a line of a lyric file is to give: for each timestamp tag found on it, in the
  order of the tags, the start of that tag in milliseconds together with the cleaned text
  of the line, and nothing when that text is empty.
\<close>

definition tag_entries_spec :: "(ustr \<Rightarrow> ustr) \<Rightarrow> digit_table \<Rightarrow> ustr \<Rightarrow> (int \<times> ustr) list" where
  "tag_entries_spec clean dv line =
     (let text = clean (strip (sub_tags dv line))
      in if text = [] then [] else map (\<lambda>m. (tag_start_ms dv m, text)) (finditer_tags dv line))"

text \<open>The fraction of a tag, where there is one, has one, two or three characters.\<close>

definition frac_ok :: "tag_groups \<Rightarrow> bool" where
  "frac_ok g = (case group3 g of None \<Rightarrow> True | Some fr \<Rightarrow> 1 \<le> length fr \<and> length fr \<le> 3)"

section \<open>Retriever\<close>

text \<open>
  The storage engine is a parameter: \<open>run ranked expr limit\<close> is what
  \<open>cur.execute(sql, [expr, limit]).fetchall()\<close> does, with \<open>ranked\<close> for the statement
  that has \<open>ORDER BY bm25(fts)\<close>: the rows, or the exception raised. A row is the tuple
  \<open>(title, media_type, start_ms, end_ms, text, source_path)\<close>; its text may be NULL.
\<close>

datatype db_error = OperationalError ustr | OtherError ustr

record hit =
  h_title :: ustr
  h_media_type :: ustr
  h_start_ms :: int
  h_end_ms :: int
  h_text :: "ustr option"
  h_source_path :: ustr

type_synonym engine = "bool \<Rightarrow> ustr \<Rightarrow> int \<Rightarrow> db_error + hit list"

text \<open>\<open>p in t\<close> on strings.\<close>

fun contains :: "ustr \<Rightarrow> ustr \<Rightarrow> bool" where
  "contains p [] = (p = [])"
| "contains p (c # cs) = (take (length p) (c # cs) = p \<or> contains p cs)"

text \<open>\<open>s.lower()\<close> on the ASCII letters, which is all that SQLite's messages have.\<close>

definition lower :: "ustr \<Rightarrow> ustr" where
  "lower s = map (\<lambda>c. if 65 \<le> c \<and> c \<le> 90 then c + 32 else c) s"

text \<open>\<open>xs[:n]\<close>: a negative \<open>n\<close> counts from the end.\<close>

definition slice_to :: "int \<Rightarrow> 'a list \<Rightarrow> 'a list" where
  "slice_to n xs = (if 0 \<le> n then take (nat n) xs else take (nat (int (length xs) + n)) xs)"

text \<open>\<open>txt or ""\<close> in \<open>has_all\<close>.\<close>

definition text_or_empty :: "ustr option \<Rightarrow> ustr" where
  "text_or_empty txt = (case txt of None \<Rightarrow> [] | Some t \<Rightarrow> t)"

definition has_all :: "ustr list \<Rightarrow> ustr option \<Rightarrow> bool" where
  "has_all phrases txt = (let t = text_or_empty txt in list_all (\<lambda>p. contains p t) phrases)"

definition post_filter :: "ustr list \<Rightarrow> int \<Rightarrow> hit list \<Rightarrow> hit list" where
  "post_filter phrases topn rows =
     (if phrases \<noteq> [] then slice_to topn (filter (\<lambda>r. has_all phrases (h_text r)) rows)
      else slice_to topn rows)"

text \<open>\<open>query_hits\<close> of app\_ui.py; \<open>Inl\<close> is an exception that leaves the function.\<close>

definition query_hits :: "analyzer \<Rightarrow> engine \<Rightarrow> ustr \<Rightarrow> ustr list \<Rightarrow> int \<Rightarrow> db_error + hit list" where
  "query_hits tok run query phrases topn =
     (case build_match_query tok query of
        None \<Rightarrow> Inr []
      | Some match_expr \<Rightarrow>
          if match_expr = [] then Inr []
          else (case run True match_expr (topn * 5) of
                  Inr rows \<Rightarrow> Inr (post_filter phrases topn rows)
                | Inl (OtherError m) \<Rightarrow> Inl (OtherError m)
                | Inl (OperationalError m) \<Rightarrow>
                    (let msg = lower m in
                     if contains (asc ''no such table: fts'') msg then Inr []
                     else if contains (asc ''no such function: bm25'') msg
                     then (case run False match_expr (topn * 5) of
                             Inr rows \<Rightarrow> Inr (post_filter phrases topn rows)
                           | Inl e \<Rightarrow> Inl e)
                     else Inl (OperationalError m))))"

text \<open>
  \<open>search\<close> of search.py: what it prints, or the exception that leaves it. The limit
  is \<open>topn\<close> itself and no phrase filter is applied.
\<close>

datatype printed = Empty_query_message | Match_line ustr | Hit_line nat hit

definition search :: "analyzer \<Rightarrow> engine \<Rightarrow> ustr \<Rightarrow> int \<Rightarrow> bool \<Rightarrow> db_error + printed list" where
  "search tok run query topn debug =
     (case build_match_query tok query of
        None \<Rightarrow> Inr [Empty_query_message]
      | Some match_expr \<Rightarrow>
          if match_expr = [] then Inr [Empty_query_message]
          else (let dbg = (if debug then [Match_line match_expr] else []);
                    shown = (\<lambda>rows. dbg @ map (\<lambda>(i, r). Hit_line i r) (zip [1..<Suc (length rows)] rows))
                in case run True match_expr topn of
                     Inr rows \<Rightarrow> Inr (shown rows)
                   | Inl (OtherError m) \<Rightarrow> Inl (OtherError m)
                   | Inl (OperationalError m) \<Rightarrow>
                       if contains (asc ''no such function: bm25'') (lower m)
                       then (case run False match_expr topn of
                               Inr rows \<Rightarrow> Inr (shown rows)
                             | Inl e \<Rightarrow> Inl e)
                       else Inl (OperationalError m)))"

text \<open>
  Two engines for concrete runs: a database file without the table \<open>fts\<close> (no index
  built), and an index in which nothing matches.
\<close>

definition engine_no_index :: engine where
  "engine_no_index ranked expr limit = Inl (OperationalError (asc ''no such table: fts''))"

definition engine_no_match :: engine where
  "engine_no_match ranked expr limit = Inr []"

text \<open>An engine that returns the same three rows for every query.\<close>

definition hit_of :: "ustr \<Rightarrow> hit" where
  "hit_of t = \<lparr>h_title = asc ''a'', h_media_type = asc ''song'', h_start_ms = 0, h_end_ms = 3000,
               h_text = Some t, h_source_path = asc ''a.lrc''\<rparr>"

definition engine_three :: engine where
  "engine_three ranked expr limit = Inr [hit_of (asc ''abc''), hit_of (asc ''xbz''), hit_of (asc ''bcd'')]"
section \<open>Ingest\<close>

text \<open>
  The database as the two statements of the ingest code see it. The table \<open>entries\<close>
  is a list of rows with their rowids; \<open>id\<close> is declared \<open>UNIQUE\<close>. The table \<open>fts\<close> is
  an FTS5 table with external content: it stores no row of its own, an \<open>INSERT\<close> adds
  the tokens of the two columns to the index under the given rowid, and nothing checks
  whether that rowid has been indexed before. The index is the list of these additions.
\<close>

record store =
  entries :: "(nat \<times> entry) list"
  fts :: "(nat \<times> ustr \<times> ustr) list"

definition empty_store :: store where
  "empty_store = \<lparr>entries = [], fts = []\<rparr>"

text \<open>\<open>INSERT OR IGNORE INTO entries\<close>: a row whose id is already stored is ignored.\<close>

definition next_rowid :: "store \<Rightarrow> nat" where
  "next_rowid st = Suc (fold max (map fst (entries st)) 0)"

definition insert_or_ignore :: "store \<Rightarrow> entry \<Rightarrow> store" where
  "insert_or_ignore st row =
     (if list_ex (\<lambda>(rid, e). e_id e = e_id row) (entries st) then st
      else st\<lparr>entries := entries st @ [(next_rowid st, row)]\<rparr>)"

text \<open>\<open>SELECT rowid FROM entries WHERE id = ?\<close> with \<open>fetchone()\<close>.\<close>

definition select_rowid :: "store \<Rightarrow> ustr \<Rightarrow> nat option" where
  "select_rowid st i = map_option fst (find (\<lambda>(rid, e). e_id e = i) (entries st))"

definition insert_fts :: "store \<Rightarrow> nat \<Rightarrow> ustr \<Rightarrow> ustr \<Rightarrow> store" where
  "insert_fts st rid text_tok reading_tok = st\<lparr>fts := fts st @ [(rid, text_tok, reading_tok)]\<rparr>"

text \<open>
  \<open>insert_entry\<close> of build\_index.py. \<open>cur.fetchone()[0]\<close> raises a \<open>TypeError\<close> when
  there is no such row: the result \<open>None\<close>.
\<close>

definition insert_entry :: "normalizer \<Rightarrow> analyzer \<Rightarrow> store \<Rightarrow> entry \<Rightarrow> store option" where
  "insert_entry nf tok st row =
     (let st1 = insert_or_ignore st row in
      case select_rowid st1 (e_id row) of
        None \<Rightarrow> None
      | Some rid \<Rightarrow>
          (let text = jp_clean nf (e_text row);
               text_tok = join (asc '' '') (tokenize_surface tok text);
               reading_tok = join (asc '' '') (tokenize_reading_kana tok text)
           in Some (insert_fts st1 rid text_tok reading_tok)))"

text \<open>\<open>insert_batch\<close> of indexer\_gui.py: all rows first, then the index, row by row.\<close>

definition index_row_gui :: "normalizer \<Rightarrow> analyzer \<Rightarrow> store \<Rightarrow> entry \<Rightarrow> store" where
  "index_row_gui nf tok st e =
     (case select_rowid st (e_id e) of
        None \<Rightarrow> st
      | Some rid \<Rightarrow>
          (let text = jp_clean nf (e_text e);
               text_tok = join (asc '' '') (tokenize_surface tok text);
               reading_tok = join (asc '' '') (tokenize_reading_kana_gui tok text)
           in insert_fts st rid text_tok reading_tok))"

definition insert_batch :: "normalizer \<Rightarrow> analyzer \<Rightarrow> store \<Rightarrow> entry list \<Rightarrow> store" where
  "insert_batch nf tok st batch =
     foldl (index_row_gui nf tok) (foldl insert_or_ignore st batch) batch"

text \<open>A record for concrete runs: one line of a lyric file.\<close>

definition neko_entry :: entry where
  "neko_entry =
     \<lparr>e_id = asc ''a.lrc|0'', media_type = asc ''song'', title = asc ''a'',
      episode_or_track = [], media_path = [], source_path = asc ''a.lrc'',
      start_ms = 0, end_ms = 3000, e_text = [29483], context_prev = [], context_next = []\<rparr>"

section \<open>Snippet cache\<close>

text \<open>
  What \<open>make_snippet\<close> touches outside the program: the files (the size of the file
  at a path), whether the cache directory can be made, and the command lines run so far.
  The transcoder is a parameter: from the command line and the files it gives the files
  afterwards and whether the process ended with status 0. The times of the command line
  are kept in milliseconds (the code prints them in seconds with three decimals). The
  hash \<open>hashlib.md5(...).hexdigest()\<close> and the directory \<open>CACHE_DIR\<close> are parameters too.
\<close>

record ffmpeg_args =
  exe :: ustr
  seek_ms :: int
  media_in :: ustr
  duration_ms :: int
  out_file :: ustr

type_synonym files = "ustr \<Rightarrow> nat option"

record world =
  file_size :: files
  mkdir_ok :: bool
  commands :: "ffmpeg_args list"

record snippet_env =
  md5_hex :: "ustr \<Rightarrow> ustr"
  cache_dir :: ustr
  transcode :: "ffmpeg_args \<Rightarrow> files \<Rightarrow> files \<times> bool"

definition cache_key :: "ustr \<Rightarrow> int \<Rightarrow> int \<Rightarrow> int \<Rightarrow> ustr" where
  "cache_key media start_ms' end_ms' pad_ms =
     media @ asc ''|'' @ str_int start_ms' @ asc ''|'' @ str_int end_ms' @ asc ''|'' @ str_int pad_ms"

definition cache_file :: "snippet_env \<Rightarrow> ustr \<Rightarrow> int \<Rightarrow> int \<Rightarrow> int \<Rightarrow> ustr" where
  "cache_file env media start_ms' end_ms' pad_ms =
     cache_dir env @ asc ''/'' @ md5_hex env (cache_key media start_ms' end_ms' pad_ms) @ asc ''.mp3''"

text \<open>
  \<open>make_snippet\<close>: the returned path (\<open>None\<close> is Python's) and the world afterwards.
  Every exception inside is caught and gives \<open>None\<close>.
\<close>

definition make_snippet ::
  "snippet_env \<Rightarrow> ustr \<Rightarrow> ustr \<Rightarrow> int \<Rightarrow> int \<Rightarrow> int \<Rightarrow> world \<Rightarrow> ustr option \<times> world" where
  "make_snippet env ffmpeg_exe media start_ms' end_ms' pad_ms w =
     (if \<not> mkdir_ok w then (None, w)
      else let out = cache_file env media start_ms' end_ms' pad_ms in
        if (case file_size w out of None \<Rightarrow> False | Some sz \<Rightarrow> sz > 1024) then (Some out, w)
        else let ss = max 0 (start_ms' - pad_ms);
                 dur = max 1 ((end_ms' - start_ms') + 2 * pad_ms);
                 args = \<lparr>exe = ffmpeg_exe, seek_ms = ss, media_in = media, duration_ms = dur,
                         out_file = out\<rparr>;
                 (files', ok) = transcode env args (file_size w);
                 w' = w\<lparr>file_size := files', commands := commands w @ [args]\<rparr>
             in if \<not> ok then (None, w')
                else if file_size w' out \<noteq> None then (Some out, w') else (None, w'))"

text \<open>
  An environment for concrete runs: the hash is a fixed name, and the transcoder writes
  an output file of the given number of bytes.
\<close>

definition env_writing :: "nat \<Rightarrow> snippet_env" where
  "env_writing n =
     \<lparr>md5_hex = (\<lambda>key. asc ''0f''), cache_dir = asc ''cache'',
      transcode = (\<lambda>args fs. (fs(out_file args \<mapsto> n), True))\<rparr>"

definition fresh_world :: world where
  "fresh_world = \<lparr>file_size = (\<lambda>p. None), mkdir_ok = True, commands = []\<rparr>"
section \<open>Highlighter\<close>

text \<open>A range is the pair \<open>(start, end)\<close> of two offsets into the text.\<close>

type_synonym span = "nat \<times> nat"

text \<open>
  \<open>subtract_intervals\<close>: the inner loop over the segments for one \<open>(bs_s, bs_e)\<close>, the
  outer loop over \<open>bs\<close> with its \<open>break\<close>, and the final filter.
\<close>

definition cut_segment :: "span \<Rightarrow> span \<Rightarrow> span list" where
  "cut_segment b seg =
     (case b of (bs_s, bs_e) \<Rightarrow> case seg of (x, y) \<Rightarrow>
        if bs_e \<le> x \<or> bs_s \<ge> y then [(x, y)]
        else (if x < bs_s then [(x, bs_s)] else []) @ (if bs_e < y then [(bs_e, y)] else []))"

fun subtract_loop :: "span list \<Rightarrow> span list \<Rightarrow> span list" where
  "subtract_loop segments [] = segments"
| "subtract_loop segments (b # bs) =
     (let new_segments = concat (map (cut_segment b) segments)
      in if new_segments = [] then new_segments else subtract_loop new_segments bs)"

definition subtract_intervals :: "span \<Rightarrow> span list \<Rightarrow> span list" where
  "subtract_intervals a bs = filter (\<lambda>(x, y). y > x) (subtract_loop [a] bs)"

text \<open>
  \<open>text.find(p, start)\<close>: the lowest index from \<open>start\<close> on at which \<open>p\<close> occurs, \<open>None\<close>
  for Python's \<open>-1\<close>.
\<close>

fun find_index :: "ustr \<Rightarrow> ustr \<Rightarrow> nat option" where
  "find_index p [] = (if p = [] then Some 0 else None)"
| "find_index p (c # cs) =
     (if take (length p) (c # cs) = p then Some 0 else map_option Suc (find_index p cs))"

definition str_find :: "ustr \<Rightarrow> ustr \<Rightarrow> nat \<Rightarrow> nat option" where
  "str_find text p start =
     (if start > length text then None
      else map_option (\<lambda>i. start + i) (find_index p (drop start text)))"

lemma find_index_bound: "find_index p t = Some i \<Longrightarrow> i + length p \<le> length t"
proof (induction t arbitrary: i)
  case Nil
  then show ?case by (simp split: if_splits)
next
  case (Cons c cs)
  show ?case
  proof (cases "take (length p) (c # cs) = p")
    case True
    then have "length (take (length p) (c # cs)) = length p"
      by simp
    then have "length p \<le> length (c # cs)"
      by simp
    with True Cons.prems show ?thesis by simp
  next
    case False
    with Cons.prems obtain j where "find_index p cs = Some j" and "i = Suc j"
      by auto
    with Cons.IH show ?thesis by simp
  qed
qed

lemma str_find_bound:
  "str_find text p start = Some i \<Longrightarrow> start \<le> i \<and> i + length p \<le> length text"
  by (auto simp: str_find_def split: if_splits dest!: find_index_bound)

text \<open>
  The \<open>while True\<close> loop of \<open>find_phrase_ranges\<close> for one phrase, with the test
  \<open>if not p: continue\<close> that stands before it.
\<close>

function phrase_occurrences :: "ustr \<Rightarrow> ustr \<Rightarrow> nat \<Rightarrow> span list" where
  "phrase_occurrences text p start =
     (if p = [] then []
      else case str_find text p start of
             None \<Rightarrow> []
           | Some i \<Rightarrow> (i, i + length p) # phrase_occurrences text p (i + length p))"
  by pat_completeness auto
termination
proof (relation "measure (\<lambda>(text, p, start). Suc (length text) - start)")
  show "wf (measure (\<lambda>(text, p, start). Suc (length text) - start))"
    by simp
next
  fix tx p :: "nat list" and start i :: nat
  assume ne: "p \<noteq> []" and f: "str_find tx p start = Some i"
  from f have b: "start \<le> i" "i + length p \<le> length tx"
    using str_find_bound by auto
  from ne obtain n where n: "length p = Suc n"
    by (cases p) auto
  from b n show "((tx, p, i + length p), (tx, p, start))
               \<in> measure (\<lambda>(text, p, start). Suc (length text) - start)"
    by simp
qed

declare phrase_occurrences.simps [simp del]

text \<open>The merging loop of \<open>find_phrase_ranges\<close>, one step for one \<open>(s, e)\<close>.\<close>

definition merge_step :: "span list \<Rightarrow> span \<Rightarrow> span list" where
  "merge_step merged r =
     (case r of (s, e) \<Rightarrow>
        if merged = [] \<or> s > snd (last merged) then merged @ [(s, e)]
        else butlast merged @ [(fst (last merged), max (snd (last merged)) e)])"

definition find_phrase_ranges :: "ustr \<Rightarrow> ustr list \<Rightarrow> span list" where
  "find_phrase_ranges text phrases =
     (let ranges = concat (map (\<lambda>p. phrase_occurrences text p 0) phrases)
      in foldl merge_step [] (sort ranges))"

text \<open>
  \<open>build_highlight_html\<close>. The labels are Python's strings \<open>"phrase"\<close> and \<open>"token"\<close>.
  \<open>highlight_spans\<close> is the list \<open>out\<close>, of which the rendering loop wraps every element
  in a \<open>span\<close> tag. The query sets are sets of strings.
\<close>

datatype label = Phrase | Token

type_synonym lspan = "nat \<times> nat \<times> label"

definition token_matches :: "ustr set \<Rightarrow> ustr set \<Rightarrow> morpheme \<Rightarrow> bool" where
  "token_matches surf_qset read_qset m =
     (let surf = py_or (surface m) []; read = py_or (reading_form m) surf
      in surf \<in> surf_qset \<or> read \<in> read_qset)"

definition token_ranges :: "analyzer \<Rightarrow> ustr \<Rightarrow> span list \<Rightarrow> ustr set \<Rightarrow> ustr set \<Rightarrow> span list" where
  "token_ranges tok text phrase_ranges surf_qset read_qset =
     concat (map (\<lambda>m. subtract_intervals (mbegin m, mend m) phrase_ranges)
               (filter (token_matches surf_qset read_qset) (tok text)))"

definition labeled_ranges :: "span list \<Rightarrow> span list \<Rightarrow> lspan list" where
  "labeled_ranges phrase_ranges tok_ranges =
     sort_key (\<lambda>(s, e, t). (s, t \<noteq> Phrase))
       (map (\<lambda>(s, e). (s, e, Phrase)) phrase_ranges @ map (\<lambda>(s, e). (s, e, Token)) tok_ranges)"

definition emit_step :: "lspan list \<Rightarrow> lspan \<Rightarrow> lspan list" where
  "emit_step out x =
     (case x of (s, e, t) \<Rightarrow>
        if t = Token \<and> list_ex (\<lambda>(ps, pe, pt). pt = Phrase \<and> \<not> (e \<le> ps \<or> s \<ge> pe)) out
        then out
        else if out \<noteq> [] \<and> snd (snd (last out)) = t \<and> s \<le> fst (snd (last out))
        then butlast out @ [(fst (last out), max (fst (snd (last out))) e, t)]
        else out @ [(s, e, t)])"

definition highlight_spans ::
  "analyzer \<Rightarrow> ustr \<Rightarrow> ustr list \<Rightarrow> ustr set \<Rightarrow> ustr set \<Rightarrow> lspan list" where
  "highlight_spans tok text phrases surf_qset read_qset =
     (if text = [] then []
      else let phrase_ranges = find_phrase_ranges text phrases;
               tok_ranges = token_ranges tok text phrase_ranges surf_qset read_qset
           in foldl emit_step [] (labeled_ranges phrase_ranges tok_ranges))"

text \<open>\<open>html.escape\<close>, the slice \<open>text[a:b]\<close>, and the rendering loop.\<close>

definition html_escape :: "ustr \<Rightarrow> ustr" where
  "html_escape s =
     concat (map (\<lambda>c. if c = 38 then asc ''&amp;'' else if c = 60 then asc ''&lt;''
                       else if c = 62 then asc ''&gt;'' else if c = 34 then asc ''&quot;''
                       else if c = 39 then asc ''&#x27;'' else [c]) s)"

definition slice :: "ustr \<Rightarrow> nat \<Rightarrow> nat \<Rightarrow> ustr" where
  "slice text a b = take (b - a) (drop a text)"

definition HIGHLIGHT_TOKEN_STYLE :: ustr where
  "HIGHLIGHT_TOKEN_STYLE =
     asc ''background-color:#FFE69A; color:#202020; border-radius:4px; padding:0 3px;''"

definition HIGHLIGHT_PHRASE_STYLE :: ustr where
  "HIGHLIGHT_PHRASE_STYLE =
     asc ''background-color:#BAF7C7; color:#103E1E; border-radius:4px; padding:0 3px;''"

definition render_step :: "ustr \<Rightarrow> nat \<times> ustr list \<Rightarrow> lspan \<Rightarrow> nat \<times> ustr list" where
  "render_step text st x =
     (case st of (cur, parts) \<Rightarrow> case x of (s, e, t) \<Rightarrow>
        let parts = (if cur < s then parts @ [html_escape (slice text cur s)] else parts);
            seg = html_escape (slice text s e);
            style = (if t = Phrase then HIGHLIGHT_PHRASE_STYLE else HIGHLIGHT_TOKEN_STYLE)
        in (e, parts @ [asc ''<span style='' @ [34] @ style @ [34] @ asc ''>'' @ seg @ asc ''</span>'']))"

definition build_highlight_html ::
  "analyzer \<Rightarrow> ustr \<Rightarrow> ustr list \<Rightarrow> ustr set \<Rightarrow> ustr set \<Rightarrow> ustr" where
  "build_highlight_html tok text phrases surf_qset read_qset =
     (if text = [] then []
      else case foldl (render_step text) (0, [])
                  (highlight_spans tok text phrases surf_qset read_qset) of
             (cur, parts) \<Rightarrow>
               join [] (if cur < length text
                        then parts @ [html_escape (slice text cur (length text))] else parts))"

text \<open>
  The positions a list of ranges covers, the positions at which some phrase occurs in
  the text, and the positions of the tokens of the text that match the query sets.
\<close>

definition covered :: "span list \<Rightarrow> nat set" where
  "covered rs = (\<Union>(s, e)\<in>set rs. {s..<e})"

definition covered_by :: "label \<Rightarrow> lspan list \<Rightarrow> nat set" where
  "covered_by l xs = (\<Union>(s, e, t)\<in>set xs. if t = l then {s..<e} else {})"

definition phrase_positions :: "ustr \<Rightarrow> ustr list \<Rightarrow> nat set" where
  "phrase_positions text phrases =
     {i. \<exists>p\<in>set phrases. \<exists>a. p \<noteq> [] \<and> a + length p \<le> length text
            \<and> take (length p) (drop a text) = p \<and> a \<le> i \<and> i < a + length p}"

definition token_positions :: "analyzer \<Rightarrow> ustr \<Rightarrow> ustr set \<Rightarrow> ustr set \<Rightarrow> nat set" where
  "token_positions tok text surf_qset read_qset =
     {i. \<exists>m\<in>set (tok text). token_matches surf_qset read_qset m \<and> mbegin m \<le> i \<and> i < mend m}"

text \<open>
  The invariant of the loop that builds \<open>out\<close> from the sorted labeled ranges: the
  ranges emitted so far are not empty and each ends before the next one starts; the
  ranges still to come are sorted by start, not empty, and a phrase range and a token
  range among them never overlap; and every emitted range starts no later than any range
  to come and ends before any range to come with the other label.
\<close>

definition walk_inv :: "lspan list \<Rightarrow> lspan list \<Rightarrow> bool" where
  "walk_inv out xs \<longleftrightarrow>
     sorted_wrt (\<lambda>a b. fst (snd a) \<le> fst b) out
   \<and> (\<forall>(s, e, t)\<in>set out. s < e)
   \<and> sorted (map fst xs)
   \<and> (\<forall>(s, e, t)\<in>set xs. s < e)
   \<and> (\<forall>(s, e, t)\<in>set xs. \<forall>(s', e', t')\<in>set xs. t \<noteq> t' \<longrightarrow> e \<le> s' \<or> e' \<le> s)
   \<and> (\<forall>(s0, e0, t0)\<in>set out. \<forall>(s, e, t)\<in>set xs. s0 \<le> s \<and> (t \<noteq> t0 \<longrightarrow> e0 \<le> s))"

text \<open>
  An analyzer for concrete runs: it cuts every text into the morphemes \<open>ab\<close>, \<open>cd\<close> and
  \<open>ef\<close> at the offsets 0, 2 and 4.
\<close>

definition tok_abcdef :: analyzer where
  "tok_abcdef q =
     [\<lparr>surface = asc ''ab'', reading_form = asc ''AB'', mbegin = 0, mend = 2\<rparr>,
      \<lparr>surface = asc ''cd'', reading_form = asc ''CD'', mbegin = 2, mend = 4\<rparr>,
      \<lparr>surface = asc ''ef'', reading_form = asc ''EF'', mbegin = 4, mend = 6\<rparr>]"
section \<open>Properties of the tokenizer adapter and the query compiler\<close>

lemma field_clause_nonempty: "ts \<noteq> [] \<Longrightarrow> field_clause f ts \<noteq> []"
proof (cases ts)
  case Nil
  assume "ts \<noteq> []"
  with Nil show ?thesis by simp
next
  case (Cons t ts')
  then show ?thesis
    by (cases ts') (simp_all add: field_clause_def asc_def)
qed

text \<open>
  Claim C1. Whenever the query has a non-blank surface token or a non-blank reading token,
  \<open>build_match_query\<close> returns an expression: each field's tokens are joined by
  \<open>AND\<close>, the two parenthesised field clauses are joined by \<open>OR\<close>, and a field with
  no token contributes no clause; a single surface token \<open>t\<close> with no reading token gives
  \<open>(text_tok:t)\<close> alone.
\<close>

theorem build_match_query_shape:
  assumes "tokenize_surface tok q \<noteq> [] \<or> tokenize_reading tok q \<noteq> []"
  shows "build_match_query tok q =
           Some (let ss = map strip_quotes (tokenize_surface tok q);
                     rs = map strip_quotes (tokenize_reading tok q);
                     S = join (asc '' AND '') (map (\<lambda>t. asc ''text_tok:'' @ t) ss);
                     R = join (asc '' AND '') (map (\<lambda>t. asc ''reading_tok:'' @ t) rs)
                 in if rs = [] then asc ''('' @ S @ asc '')''
                    else if ss = [] then asc ''('' @ R @ asc '')''
                    else asc ''('' @ S @ asc '') OR ('' @ R @ asc '')'')
         \<and> (\<forall>t. tokenize_surface tok q = [t] \<and> tokenize_reading tok q = [] \<longrightarrow>
                build_match_query tok q = Some (asc ''(text_tok:'' @ strip_quotes t @ asc '')''))"
proof -
  define ss where "ss = map strip_quotes (tokenize_surface tok q)"
  define rs where "rs = map strip_quotes (tokenize_reading tok q)"
  define S where "S = join (asc '' AND '') (map (\<lambda>t. asc ''text_tok:'' @ t) ss)"
  define R where "R = join (asc '' AND '') (map (\<lambda>t. asc ''reading_tok:'' @ t) rs)"
  have fc_s: "field_clause ''text_tok'' ss = S"
    by (simp add: field_clause_def S_def asc_def)
  have fc_r: "field_clause ''reading_tok'' rs = R"
    by (simp add: field_clause_def R_def asc_def)
  have ne: "ss \<noteq> [] \<or> rs \<noteq> []"
    using assms by (simp add: ss_def rs_def)
  have S_ne: "ss \<noteq> [] \<Longrightarrow> S \<noteq> []"
    using field_clause_nonempty [of ss "''text_tok''"] fc_s by simp
  have R_ne: "rs \<noteq> [] \<Longrightarrow> R \<noteq> []"
    using field_clause_nonempty [of rs "''reading_tok''"] fc_r by simp
  have main: "build_match_query tok q =
           Some (if rs = [] then asc ''('' @ S @ asc '')''
                 else if ss = [] then asc ''('' @ R @ asc '')''
                 else asc ''('' @ S @ asc '') OR ('' @ R @ asc '')'')"
    using ne S_ne R_ne
    unfolding build_match_query_def Let_def ss_def [symmetric] rs_def [symmetric] fc_s fc_r
    by (auto simp: asc_def)
  have single: "build_match_query tok q = Some (asc ''(text_tok:'' @ strip_quotes t @ asc '')'')"
    if "tokenize_surface tok q = [t]" and "tokenize_reading tok q = []" for t
  proof -
    from that have "ss = [strip_quotes t]" and "rs = []"
      by (simp_all add: ss_def rs_def)
    then show ?thesis
      using main by (simp add: S_def asc_def)
  qed
  from main single show ?thesis
    unfolding Let_def ss_def rs_def S_def R_def by blast
qed

theorem build_match_query_shape_witness:
  "build_match_query tok_neko [29483] =
     Some (asc ''(text_tok:'' @ [29483] @ asc '') OR (reading_tok:'' @ [12493, 12467] @ asc '')'')
   \<and> build_match_query tok_blank_reading [97] = Some (asc ''(text_tok:a)'')"
proof -
  have s1: "tokenize_surface tok_neko [29483] = [[29483]]"
    by (simp add: tokenize_surface_def tok_neko_def strip_def py_isspace_def)
  have r1: "tokenize_reading tok_neko [29483] = [[12493, 12467]]"
    by (simp add: tokenize_reading_def tok_neko_def strip_def py_isspace_def py_or_def)
  have s2: "tokenize_surface tok_blank_reading [97] = [[97]]"
    by (simp add: tokenize_surface_def tok_blank_reading_def strip_def py_isspace_def asc_def)
  have r2: "tokenize_reading tok_blank_reading [97] = []"
    by (simp add: tokenize_reading_def tok_blank_reading_def strip_def py_isspace_def py_or_def
        asc_def)
  have "build_match_query tok_neko [29483] =
     Some (asc ''(text_tok:'' @ [29483] @ asc '') OR (reading_tok:'' @ [12493, 12467] @ asc '')'')"
    using build_match_query_shape [of tok_neko "[29483]"]
    by (simp add: s1 r1 strip_quotes_def asc_def Let_def)
  moreover have "build_match_query tok_blank_reading [97] = Some (asc ''(text_tok:a)'')"
    using build_match_query_shape [of tok_blank_reading "[97]"]
    by (simp add: s2 r2 strip_quotes_def asc_def Let_def)
  ultimately show ?thesis by simp
qed

text \<open>
  Claim C6. A reading \<open>*\<close> falls back to the surface only in \<open>tokenize_reading_kana\<close> of
  build\_index.py. On the query path (\<open>tokenize_reading\<close>) and in the graphical indexer
  the reading \<open>*\<close> is kept as it is; an empty reading falls back to the surface on every
  path.
\<close>

theorem star_reading_not_replaced:
  "tokenize_reading_kana tok_star [29483] = [[29483]]
   \<and> tokenize_reading tok_star [29483] = [asc ''*'']
   \<and> tokenize_reading_kana_gui tok_star [29483] = [asc ''*'']"
  by (simp add: tokenize_reading_kana_def reading_kana_def tokenize_reading_def
      tokenize_reading_kana_gui_def tok_star_def strip_def py_isspace_def py_or_def asc_def)

section \<open>Properties of the lyric parser\<close>

lemma str_nat_62500: "str_nat 62500 = asc ''62500''"
  by (simp add: str_nat.simps [of 62500] str_nat.simps [of 6250] str_nat.simps [of 625]
      str_nat.simps [of 62] str_nat.simps [of 6] asc_def)

lemma scan_lrc_line:
  assumes "\<forall>c\<in>set lrc_line. dv c = ascii_digit c"
  shows "scan_tags dv lrc_line =
           ([\<lparr>group1 = asc ''01'', group2 = asc ''02'', group3 = Some (asc ''50'')\<rparr>], konnichiwa)"
proof -
  have d: "dv 48 = Some 0" "dv 49 = Some 1" "dv 50 = Some 2" "dv 53 = Some 5" "dv 93 = None"
    using assms by (simp_all add: lrc_line_def konnichiwa_def asc_def ascii_digit_def)
  have m: "match_time_tag dv lrc_line =
      Some (\<lparr>group1 = asc ''01'', group2 = asc ''02'', group3 = Some (asc ''50'')\<rparr>, konnichiwa)"
    by (simp add: match_time_tag_def match_from_minutes_def match_frac_def match_close_def
        expect_def digits_at_def lrc_line_def asc_def d)
  have k: "scan_tags dv konnichiwa = ([], konnichiwa)"
    by (simp add: konnichiwa_def match_time_tag_def expect_def)
  have "lrc_line = 91 # tl lrc_line"
    by (simp add: lrc_line_def asc_def)
  then have "scan_tags dv lrc_line =
      (case match_time_tag dv lrc_line of
        Some (g, rest) \<Rightarrow> (case scan_tags dv rest of (ms, t) \<Rightarrow> (g # ms, t))
      | None \<Rightarrow> (case scan_tags dv (tl lrc_line) of (ms, t) \<Rightarrow> (ms, 91 # t)))"
    by (metis scan_tags.simps(2))
  then show ?thesis
    by (simp add: m k)
qed

lemma py_int_snoc:
  "py_int dv (s @ [c]) = 10 * py_int dv s + (case dv c of Some d \<Rightarrow> d | None \<Rightarrow> 0)"
  by (simp add: py_int_def)

lemma frac_to_ms:
  assumes z: "dv 48 = Some 0" and l: "1 \<le> length fr" "length fr \<le> 3"
  shows "py_int dv (take 3 (fr @ asc ''00'')) = py_int dv fr * 10 ^ (3 - length fr)"
proof -
  have a: "asc ''00'' = [48, 48]" by (simp add: asc_def)
  from l consider "length fr = 1" | "length fr = 2" | "length fr = 3" by linarith
  then show ?thesis
  proof cases
    case 1
    then have "take 3 (fr @ [48, 48]) = (fr @ [48]) @ [48]" by simp
    then show ?thesis
      using 1 z by (simp only: a py_int_snoc) simp
  next
    case 2
    then have "take 3 (fr @ [48, 48]) = fr @ [48]" by simp
    then show ?thesis
      using 2 z by (simp only: a py_int_snoc) simp
  next
    case 3
    then show ?thesis by simp
  qed
qed

lemma digits_at_taken: "digits_at dv k s = Some (d, r) \<Longrightarrow> length d = k"
  by (auto simp: digits_at_def split: if_splits)

lemma match_close_frac: "match_close mm ss fr s = Some (g, r) \<Longrightarrow> group3 g = fr"
  by (auto simp: match_close_def split: bind_splits)

lemma match_frac_ok:
  assumes "match_frac dv mm ss s k = Some (g, r)" and "1 \<le> k" and "k \<le> 3"
  shows "frac_ok g"
proof -
  from assms(1) obtain s1 fr s2 where
    d: "digits_at dv k s1 = Some (fr, s2)" and c: "match_close mm ss (Some fr) s2 = Some (g, r)"
    by (auto simp: match_frac_def split: bind_splits)
  from d have "length fr = k" by (rule digits_at_taken)
  moreover from c have "group3 g = Some fr" by (rule match_close_frac)
  ultimately show ?thesis
    using assms(2,3) by (simp add: frac_ok_def)
qed

lemma match_from_minutes_ok:
  assumes "match_from_minutes dv s k = Some (g, r)"
  shows "frac_ok g"
proof -
  from assms obtain mm ss s3 where
    d: "first_some (map (match_frac dv mm ss s3) [3, 2, 1] @ [match_close mm ss None s3])
          = Some (g, r)"
    by (auto simp: match_from_minutes_def split: bind_splits)
  from d have "Some (g, r) \<in> set (map (match_frac dv mm ss s3) [3, 2, 1] @ [match_close mm ss None s3])"
    by (rule first_some_cases)
  then consider k where "match_frac dv mm ss s3 k = Some (g, r)" "1 \<le> k" "k \<le> 3"
    | "match_close mm ss None s3 = Some (g, r)"
    by auto
  then show ?thesis
  proof cases
    case 1
    then show ?thesis by (rule match_frac_ok)
  next
    case 2
    then have "group3 g = None" by (rule match_close_frac)
    then show ?thesis by (simp add: frac_ok_def)
  qed
qed

lemma match_time_tag_ok:
  assumes "match_time_tag dv s = Some (g, r)"
  shows "frac_ok g"
proof -
  from assms obtain s1 where
    b: "first_some (map (match_from_minutes dv s1) [2, 1]) = Some (g, r)"
    by (auto simp: match_time_tag_def split: bind_splits)
  from b have "Some (g, r) \<in> set (map (match_from_minutes dv s1) [2, 1])"
    by (rule first_some_cases)
  then show ?thesis
    by (auto dest: match_from_minutes_ok [OF sym])
qed

lemma scan_tags_ok: "g \<in> set (fst (scan_tags dv s)) \<Longrightarrow> frac_ok g"
proof (induction dv s rule: scan_tags.induct)
  case (1 dv)
  then show ?case by simp
next
  case (2 dv c cs)
  show ?case
  proof (cases "match_time_tag dv (c # cs)")
    case None
    with "2.prems" have "g \<in> set (fst (scan_tags dv cs))"
      by (simp split: prod.splits)
    with None "2.IH" show ?thesis by auto
  next
    case (Some a)
    obtain g0 rest where a: "a = (g0, rest)" by (cases a)
    with Some "2.prems" have "g = g0 \<or> g \<in> set (fst (scan_tags dv rest))"
      by (auto split: prod.splits)
    then show ?thesis
    proof
      assume "g = g0"
      with Some a show ?thesis by (auto dest: match_time_tag_ok)
    next
      assume "g \<in> set (fst (scan_tags dv rest))"
      with Some a "2.IH" show ?thesis by auto
    qed
  qed
qed

lemma tag_start_ms_formula:
  assumes "dv 48 = Some 0" and "m \<in> set (finditer_tags dv line)"
  shows "tag_start_ms dv m =
           (int (py_int dv (group1 m)) * 60 + int (py_int dv (group2 m))) * 1000
           + (case group3 m of None \<Rightarrow> 0
              | Some frac \<Rightarrow> int (py_int dv frac) * 10 ^ (3 - length frac))"
proof -
  from assms(2) have ok: "frac_ok m"
    unfolding finditer_tags_def by (rule scan_tags_ok)
  show ?thesis
  proof (cases "group3 m")
    case None
    then show ?thesis by (simp add: tag_start_ms_def)
  next
    case (Some fr)
    with ok have l1: "1 \<le> length fr" and l3: "length fr \<le> 3"
      by (simp_all add: frac_ok_def)
    from frac_to_ms [of dv fr, OF assms(1) l1 l3] Some show ?thesis
      by (simp add: tag_start_ms_def)
  qed
qed

lemma map_insort_key:
  "map g (insort_key (\<lambda>x. k (g x)) x xs) = insort_key k (g x) (map g xs)"
  by (induction xs) simp_all

lemma map_sort_key: "map g (sort_key (\<lambda>x. k (g x)) xs) = sort_key k (map g xs)"
  by (induction xs) (simp_all add: map_insort_key)

lemma set_context_fields:
  "map (\<lambda>e. (start_ms e, e_text e)) (set_context es) = map (\<lambda>e. (start_ms e, e_text e)) es"
  "map (\<lambda>e. end_ms e - start_ms e) (set_context es) = map (\<lambda>e. end_ms e - start_ms e) es"
  by (rule nth_equalityI; simp add: set_context_def)+

lemma lrc_line_entries_stamps:
  "map (\<lambda>e. (start_ms e, e_text e)) (lrc_line_entries clean dv path line)
     = tag_entries_spec clean dv line"
  by (simp add: lrc_line_entries_def tag_entries_spec_def Let_def lrc_entry_def comp_def)

lemma lrc_line_entries_end:
  "e \<in> set (lrc_line_entries clean dv path line) \<Longrightarrow> end_ms e = start_ms e + 3000"
  by (auto simp: lrc_line_entries_def Let_def lrc_entry_def split: if_splits)

lemma parse_lrc_with_stamps:
  "map (\<lambda>e. (start_ms e, e_text e)) (parse_lrc_with clean dv path lines)
     = sort_key fst (concat (map (tag_entries_spec clean dv) lines))"
proof -
  have "map (\<lambda>e. (start_ms e, e_text e)) (parse_lrc_with clean dv path lines)
      = map (\<lambda>e. (start_ms e, e_text e))
          (sort_key (\<lambda>e. fst (start_ms e, e_text e)) (concat (map (lrc_line_entries clean dv path) lines)))"
    by (simp add: parse_lrc_with_def set_context_fields)
  also have "\<dots> = sort_key fst (map (\<lambda>e. (start_ms e, e_text e))
          (concat (map (lrc_line_entries clean dv path) lines)))"
    by (rule map_sort_key)
  also have "map (\<lambda>e. (start_ms e, e_text e)) (concat (map (lrc_line_entries clean dv path) lines))
      = concat (map (tag_entries_spec clean dv) lines)"
    by (simp add: map_concat comp_def lrc_line_entries_stamps)
  finally show ?thesis .
qed

lemma parse_lrc_with_end:
  assumes "e \<in> set (parse_lrc_with clean dv path lines)"
  shows "end_ms e = start_ms e + 3000"
proof -
  let ?es = "sort_key start_ms (concat (map (lrc_line_entries clean dv path) lines))"
  from assms have "end_ms e - start_ms e \<in> set (map (\<lambda>e. end_ms e - start_ms e) (set_context ?es))"
    by (simp add: parse_lrc_with_def)
  then have "end_ms e - start_ms e \<in> set (map (\<lambda>e. end_ms e - start_ms e) ?es)"
    by (simp only: set_context_fields)
  then obtain e' where "e' \<in> set (concat (map (lrc_line_entries clean dv path) lines))"
    and "end_ms e - start_ms e = end_ms e' - start_ms e'"
    by auto
  then show ?thesis
    by (auto dest: lrc_line_entries_end)
qed

lemma parse_lrc_konnichiwa:
  assumes "\<forall>c\<in>set lrc_line. dv c = ascii_digit c"
      and "nf konnichiwa = konnichiwa"
  shows "parse_lrc nf dv path [lrc_line] =
           [\<lparr>e_id = path_str path @ asc ''|62500'', media_type = asc ''song'',
             title = stem path, episode_or_track = [], media_path = [],
             source_path = path_str path, start_ms = 62500, end_ms = 65500,
             e_text = konnichiwa, context_prev = [], context_next = []\<rparr>]
       \<and> parse_lrc_gui nf dv path [lrc_line] = parse_lrc nf dv path [lrc_line]"
proof -
  have d: "dv 48 = Some 0" "dv 49 = Some 1" "dv 50 = Some 2" "dv 53 = Some 5"
    using assms(1) by (simp_all add: lrc_line_def konnichiwa_def asc_def ascii_digit_def)
  have sk: "strip konnichiwa = konnichiwa"
    by (simp add: strip_def konnichiwa_def py_isspace_def)
  have c1: "nfkc nf (strip konnichiwa) = konnichiwa"
    by (simp add: nfkc_def sk assms(2))
  have c2: "jp_clean nf (strip konnichiwa) = konnichiwa"
    by (simp add: jp_clean_def c1) (simp add: clean_controls_def konnichiwa_def bidi_ctrl_def)
  have ne: "konnichiwa \<noteq> []"
    by (simp add: konnichiwa_def)
  have st: "tag_start_ms dv \<lparr>group1 = asc ''01'', group2 = asc ''02'', group3 = Some (asc ''50'')\<rparr>
              = 62500"
    by (simp add: tag_start_ms_def py_int_def asc_def d)
  have si: "str_int 62500 = asc ''62500''"
    using str_nat_62500 by (simp add: str_int_def)
  have line: "lrc_line_entries clean dv path lrc_line =
      [\<lparr>e_id = path_str path @ asc ''|62500'', media_type = asc ''song'',
             title = stem path, episode_or_track = [], media_path = [],
             source_path = path_str path, start_ms = 62500, end_ms = 65500,
             e_text = konnichiwa, context_prev = [], context_next = []\<rparr>]"
    if "clean (strip konnichiwa) = konnichiwa" for clean
    using that
    by (simp add: lrc_line_entries_def finditer_tags_def sub_tags_def scan_lrc_line [OF assms(1)]
        ne lrc_entry_def st si) (simp add: asc_def)
  have whole: "parse_lrc_with clean dv path [lrc_line] =
      [\<lparr>e_id = path_str path @ asc ''|62500'', media_type = asc ''song'',
             title = stem path, episode_or_track = [], media_path = [],
             source_path = path_str path, start_ms = 62500, end_ms = 65500,
             e_text = konnichiwa, context_prev = [], context_next = []\<rparr>]"
    if "clean (strip konnichiwa) = konnichiwa" for clean
    using line [of clean] that by (simp add: parse_lrc_with_def set_context_def)
  show ?thesis
    using whole [of "nfkc nf"] whole [of "jp_clean nf"] c1 c2
    by (simp add: parse_lrc_def parse_lrc_gui_def)
qed


lemma parse_lrc_with_one_line:
  assumes "clean (strip (sub_tags dv line)) \<noteq> []"
  shows "length (parse_lrc_with clean dv p [line]) = length (finditer_tags dv line)"
    and "\<forall>e\<in>set (parse_lrc_with clean dv p [line]). e_text e = clean (strip (sub_tags dv line))"
proof -
  let ?text = "clean (strip (sub_tags dv line))"
  have st: "map (\<lambda>e. (start_ms e, e_text e)) (parse_lrc_with clean dv p [line])
      = sort_key fst (map (\<lambda>m. (tag_start_ms dv m, ?text)) (finditer_tags dv line))"
    using assms by (simp add: parse_lrc_with_stamps tag_entries_spec_def Let_def)
  have "length (map (\<lambda>e. (start_ms e, e_text e)) (parse_lrc_with clean dv p [line]))
      = length (finditer_tags dv line)"
    by (simp only: st length_sort length_map)
  then show "length (parse_lrc_with clean dv p [line]) = length (finditer_tags dv line)"
    by simp
  show "\<forall>e\<in>set (parse_lrc_with clean dv p [line]). e_text e = ?text"
  proof
    fix e
    assume "e \<in> set (parse_lrc_with clean dv p [line])"
    then have "(start_ms e, e_text e)
        \<in> set (map (\<lambda>e. (start_ms e, e_text e)) (parse_lrc_with clean dv p [line]))"
      by simp
    then have "(start_ms e, e_text e)
        \<in> set (map (\<lambda>m. (tag_start_ms dv m, ?text)) (finditer_tags dv line))"
      by (simp only: st set_sort)
    then show "e_text e = ?text" by auto
  qed
qed

text \<open>
  Claim C10. The line \<open>[01:02.50]\<close> followed by the five hiragana gives one entry, from
  62500 ms to 65500 ms, with the hiragana as its text, in both parsers. For every file,
  the entries of both parsers are, in order of start, one per timestamp tag of each line
  whose cleaned text is not empty, each with the text of its line and ending 3000 ms
  after its start; so a line alone gives as many entries as it has tags, all with its
  text. The start of a tag is minutes and seconds in milliseconds plus the fraction, whose
  one, two or three digits count tenths, hundredths or thousandths of a second. The digit
  table is the ASCII one on the characters of the scenario's line, and the hiragana are
  in normal form.
\<close>

theorem parse_lrc_scenario:
  assumes "\<forall>c\<in>set lrc_line. dv c = ascii_digit c"
      and "nf konnichiwa = konnichiwa"
  shows "parse_lrc nf dv path [lrc_line] =
           [\<lparr>e_id = path_str path @ asc ''|62500'', media_type = asc ''song'',
             title = stem path, episode_or_track = [], media_path = [],
             source_path = path_str path, start_ms = 62500, end_ms = 65500,
             e_text = konnichiwa, context_prev = [], context_next = []\<rparr>]
       \<and> parse_lrc_gui nf dv path [lrc_line] = parse_lrc nf dv path [lrc_line]
       \<and> (\<forall>p lines.
             map (\<lambda>e. (start_ms e, e_text e)) (parse_lrc nf dv p lines)
               = sort_key fst (concat (map (tag_entries_spec (nfkc nf) dv) lines))
           \<and> map (\<lambda>e. (start_ms e, e_text e)) (parse_lrc_gui nf dv p lines)
               = sort_key fst (concat (map (tag_entries_spec (jp_clean nf) dv) lines))
           \<and> (\<forall>e\<in>set (parse_lrc nf dv p lines) \<union> set (parse_lrc_gui nf dv p lines).
                 end_ms e = start_ms e + 3000))
       \<and> (\<forall>p line.
             (nfkc nf (strip (sub_tags dv line)) \<noteq> [] \<longrightarrow>
                length (parse_lrc nf dv p [line]) = length (finditer_tags dv line)
              \<and> (\<forall>e\<in>set (parse_lrc nf dv p [line]). e_text e = nfkc nf (strip (sub_tags dv line))))
           \<and> (jp_clean nf (strip (sub_tags dv line)) \<noteq> [] \<longrightarrow>
                length (parse_lrc_gui nf dv p [line]) = length (finditer_tags dv line)
              \<and> (\<forall>e\<in>set (parse_lrc_gui nf dv p [line]).
                    e_text e = jp_clean nf (strip (sub_tags dv line)))))
       \<and> (\<forall>line. \<forall>m\<in>set (finditer_tags dv line).
             tag_start_ms dv m =
               (int (py_int dv (group1 m)) * 60 + int (py_int dv (group2 m))) * 1000
               + (case group3 m of None \<Rightarrow> 0
                  | Some frac \<Rightarrow> int (py_int dv frac) * 10 ^ (3 - length frac)))"
proof -
  have z: "dv 48 = Some 0"
    using assms(1) by (simp add: lrc_line_def asc_def ascii_digit_def)
  note sc = parse_lrc_konnichiwa [of dv nf path, OF assms]
  have s1: "map (\<lambda>e. (start_ms e, e_text e)) (parse_lrc nf dv p lines)
               = sort_key fst (concat (map (tag_entries_spec (nfkc nf) dv) lines))" for p lines
    by (simp only: parse_lrc_def parse_lrc_with_stamps)
  have s2: "map (\<lambda>e. (start_ms e, e_text e)) (parse_lrc_gui nf dv p lines)
               = sort_key fst (concat (map (tag_entries_spec (jp_clean nf) dv) lines))" for p lines
    by (simp only: parse_lrc_gui_def parse_lrc_with_stamps)
  have s3: "\<forall>e\<in>set (parse_lrc nf dv p lines) \<union> set (parse_lrc_gui nf dv p lines).
                 end_ms e = start_ms e + 3000" for p lines
  proof
    fix e
    assume "e \<in> set (parse_lrc nf dv p lines) \<union> set (parse_lrc_gui nf dv p lines)"
    then consider "e \<in> set (parse_lrc_with (nfkc nf) dv p lines)"
      | "e \<in> set (parse_lrc_with (jp_clean nf) dv p lines)"
      by (auto simp only: parse_lrc_def parse_lrc_gui_def Un_iff)
    then show "end_ms e = start_ms e + 3000"
      by cases (rule parse_lrc_with_end, assumption)+
  qed
  have g3: "\<forall>p lines.
             map (\<lambda>e. (start_ms e, e_text e)) (parse_lrc nf dv p lines)
               = sort_key fst (concat (map (tag_entries_spec (nfkc nf) dv) lines))
           \<and> map (\<lambda>e. (start_ms e, e_text e)) (parse_lrc_gui nf dv p lines)
               = sort_key fst (concat (map (tag_entries_spec (jp_clean nf) dv) lines))
           \<and> (\<forall>e\<in>set (parse_lrc nf dv p lines) \<union> set (parse_lrc_gui nf dv p lines).
                 end_ms e = start_ms e + 3000)"
    using s1 s2 s3 by (intro allI conjI)
  have o1: "nfkc nf (strip (sub_tags dv line)) \<noteq> [] \<longrightarrow>
                length (parse_lrc nf dv p [line]) = length (finditer_tags dv line)
              \<and> (\<forall>e\<in>set (parse_lrc nf dv p [line]). e_text e = nfkc nf (strip (sub_tags dv line)))"
    for p line
    using parse_lrc_with_one_line [of "nfkc nf" dv line p]
    by (simp only: parse_lrc_def) blast
  have o2: "jp_clean nf (strip (sub_tags dv line)) \<noteq> [] \<longrightarrow>
                length (parse_lrc_gui nf dv p [line]) = length (finditer_tags dv line)
              \<and> (\<forall>e\<in>set (parse_lrc_gui nf dv p [line]).
                    e_text e = jp_clean nf (strip (sub_tags dv line)))"
    for p line
    using parse_lrc_with_one_line [of "jp_clean nf" dv line p]
    by (simp only: parse_lrc_gui_def) blast
  have g4: "\<forall>p line.
             (nfkc nf (strip (sub_tags dv line)) \<noteq> [] \<longrightarrow>
                length (parse_lrc nf dv p [line]) = length (finditer_tags dv line)
              \<and> (\<forall>e\<in>set (parse_lrc nf dv p [line]). e_text e = nfkc nf (strip (sub_tags dv line))))
           \<and> (jp_clean nf (strip (sub_tags dv line)) \<noteq> [] \<longrightarrow>
                length (parse_lrc_gui nf dv p [line]) = length (finditer_tags dv line)
              \<and> (\<forall>e\<in>set (parse_lrc_gui nf dv p [line]).
                    e_text e = jp_clean nf (strip (sub_tags dv line))))"
    using o1 o2 by (intro allI conjI)
  have g5: "\<forall>line. \<forall>m\<in>set (finditer_tags dv line).
             tag_start_ms dv m =
               (int (py_int dv (group1 m)) * 60 + int (py_int dv (group2 m))) * 1000
               + (case group3 m of None \<Rightarrow> 0
                  | Some frac \<Rightarrow> int (py_int dv frac) * 10 ^ (3 - length frac))"
  proof (intro allI ballI)
    fix line m
    assume "m \<in> set (finditer_tags dv line)"
    with z show "tag_start_ms dv m =
               (int (py_int dv (group1 m)) * 60 + int (py_int dv (group2 m))) * 1000
               + (case group3 m of None \<Rightarrow> 0
                  | Some frac \<Rightarrow> int (py_int dv frac) * 10 ^ (3 - length frac))"
      by (rule tag_start_ms_formula)
  qed
  from sc [THEN conjunct1] sc [THEN conjunct2] g3 g4 g5 show ?thesis
    by (intro conjI)
qed

lemma scan_two_tag_line:
  "scan_tags ascii_digit two_tag_line =
     ([\<lparr>group1 = asc ''00'', group2 = asc ''05'', group3 = None\<rparr>,
       \<lparr>group1 = asc ''00'', group2 = asc ''01'', group3 = Some (asc ''5'')\<rparr>], asc ''b'')"
proof -
  have m1: "match_time_tag ascii_digit (asc ''[00:05][00:01.5]b'') =
      Some (\<lparr>group1 = asc ''00'', group2 = asc ''05'', group3 = None\<rparr>, asc ''[00:01.5]b'')"
    by (simp add: match_time_tag_def match_from_minutes_def match_frac_def match_close_def
        expect_def digits_at_def ascii_digit_def asc_def)
  have m2: "match_time_tag ascii_digit (asc ''[00:01.5]b'') =
      Some (\<lparr>group1 = asc ''00'', group2 = asc ''01'', group3 = Some (asc ''5'')\<rparr>, asc ''b'')"
    by (simp add: match_time_tag_def match_from_minutes_def match_frac_def match_close_def
        expect_def digits_at_def ascii_digit_def asc_def)
  have s3: "scan_tags ascii_digit (asc ''b'') = ([], asc ''b'')"
    by (simp add: asc_def match_time_tag_def expect_def)
  have c2: "asc ''[00:01.5]b'' = 91 # tl (asc ''[00:01.5]b'')"
    by (simp add: asc_def)
  have s2: "scan_tags ascii_digit (asc ''[00:01.5]b'') =
      ([\<lparr>group1 = asc ''00'', group2 = asc ''01'', group3 = Some (asc ''5'')\<rparr>], asc ''b'')"
    by (subst c2, subst scan_tags.simps(2), subst c2 [symmetric]) (simp add: m2 s3)
  have c1: "asc ''[00:05][00:01.5]b'' = 91 # tl (asc ''[00:05][00:01.5]b'')"
    by (simp add: asc_def)
  show ?thesis
    unfolding two_tag_line_def
    by (subst c1, subst scan_tags.simps(2), subst c1 [symmetric]) (simp add: m1 s2)
qed

lemma two_tag_line_stamps:
  "tag_entries_spec (nfkc (\<lambda>s. s)) ascii_digit two_tag_line = [(5000, asc ''b''), (1500, asc ''b'')]"
proof -
  have c: "nfkc (\<lambda>s. s) (strip (asc ''b'')) = asc ''b''"
    by (simp add: nfkc_def strip_def py_isspace_def asc_def)
  have t1: "tag_start_ms ascii_digit \<lparr>group1 = asc ''00'', group2 = asc ''05'', group3 = None\<rparr> = 5000"
    by (simp add: tag_start_ms_def py_int_def asc_def ascii_digit_def)
  have t2: "tag_start_ms ascii_digit
      \<lparr>group1 = asc ''00'', group2 = asc ''01'', group3 = Some (asc ''5'')\<rparr> = 1500"
    by (simp add: tag_start_ms_def py_int_def asc_def ascii_digit_def)
  have ne: "asc ''b'' \<noteq> []"
    by (simp add: asc_def)
  show ?thesis
    by (simp add: tag_entries_spec_def finditer_tags_def sub_tags_def scan_two_tag_line c ne t1 t2 Let_def)
qed

theorem parse_lrc_scenario_witness:
  "parse_lrc (\<lambda>s. s) ascii_digit song_path [lrc_line] =
     [\<lparr>e_id = asc ''songs/a.lrc|62500'', media_type = asc ''song'',
       title = asc ''a'', episode_or_track = [], media_path = [],
       source_path = asc ''songs/a.lrc'', start_ms = 62500, end_ms = 65500,
       e_text = konnichiwa, context_prev = [], context_next = []\<rparr>]
   \<and> map (\<lambda>e. (start_ms e, e_text e)) (parse_lrc (\<lambda>s. s) ascii_digit song_path [two_tag_line])
       = [(1500, asc ''b''), (5000, asc ''b'')]"
proof -
  have h1: "\<forall>c\<in>set lrc_line. ascii_digit c = ascii_digit c"
    by simp
  have h2: "(\<lambda>s. s) konnichiwa = konnichiwa"
    by simp
  note t = parse_lrc_scenario [of ascii_digit "\<lambda>s. s" song_path, OF h1 h2]
  from t [THEN conjunct1] have a: "parse_lrc (\<lambda>s. s) ascii_digit song_path [lrc_line] =
     [\<lparr>e_id = asc ''songs/a.lrc|62500'', media_type = asc ''song'',
       title = asc ''a'', episode_or_track = [], media_path = [],
       source_path = asc ''songs/a.lrc'', start_ms = 62500, end_ms = 65500,
       e_text = konnichiwa, context_prev = [], context_next = []\<rparr>]"
    by (simp add: song_path_def asc_def)
  from t [THEN conjunct2, THEN conjunct2, THEN conjunct1, THEN spec, THEN spec, THEN conjunct1,
      of song_path "[two_tag_line]"]
  have b: "map (\<lambda>e. (start_ms e, e_text e)) (parse_lrc (\<lambda>s. s) ascii_digit song_path [two_tag_line])
       = [(1500, asc ''b''), (5000, asc ''b'')]"
    by (simp add: two_tag_line_stamps)
  from a b show ?thesis
    by (rule conjI)
qed

section \<open>Properties of the normalizer\<close>

text \<open>
  Claim C5. \<open>jp_clean\<close> trims before it removes the control characters, so a control
  character in front of a space leaves that space at the head of the result, and
  cleaning the result again removes it: on \<open>U+200E\<close>, space, \<open>a\<close> (three code points
  that NFKC leaves as they are) the first cleaning gives space, \<open>a\<close> and the second \<open>a\<close>.
\<close>

theorem jp_clean_twice_differs:
  assumes "nf [8206, 32, 97] = [8206, 32, 97]" and "nf [32, 97] = [32, 97]"
  shows "jp_clean nf [8206, 32, 97] = [32, 97]
       \<and> jp_clean nf (jp_clean nf [8206, 32, 97]) = [97]"
proof -
  have 1: "jp_clean nf [8206, 32, 97] = [32, 97]"
    by (simp add: jp_clean_def nfkc_def assms(1) strip_def py_isspace_def clean_controls_def
        bidi_ctrl_def)
  have 2: "jp_clean nf [32, 97] = [97]"
    by (simp add: jp_clean_def nfkc_def assms(2) strip_def py_isspace_def clean_controls_def
        bidi_ctrl_def)
  from 1 2 show ?thesis by simp
qed

theorem jp_clean_twice_differs_witness:
  "jp_clean (\<lambda>s. s) [8206, 32, 97] = [32, 97]
   \<and> jp_clean (\<lambda>s. s) (jp_clean (\<lambda>s. s) [8206, 32, 97]) = [97]"
  by (rule jp_clean_twice_differs) simp_all
section \<open>Properties of the retriever\<close>

lemma contains_iff: "contains p t \<longleftrightarrow> (\<exists>pre suf. t = pre @ p @ suf)"
proof (induction t)
  case Nil
  then show ?case by auto
next
  case (Cons c cs)
  show ?case
  proof
    assume "contains p (c # cs)"
    then consider "take (length p) (c # cs) = p" | "contains p cs" by auto
    then show "\<exists>pre suf. c # cs = pre @ p @ suf"
    proof cases
      case 1
      then have "c # cs = [] @ p @ drop (length p) (c # cs)"
        by (metis append_Nil append_take_drop_id)
      then show ?thesis by blast
    next
      case 2
      with Cons.IH obtain pre suf where "cs = pre @ p @ suf" by blast
      then have "c # cs = (c # pre) @ p @ suf" by simp
      then show ?thesis by blast
    qed
  next
    assume "\<exists>pre suf. c # cs = pre @ p @ suf"
    then obtain pre suf where eq: "c # cs = pre @ p @ suf" by blast
    show "contains p (c # cs)"
    proof (cases pre)
      case Nil
      with eq have "take (length p) (c # cs) = p" by simp
      then show ?thesis by simp
    next
      case (Cons a pre')
      with eq have "cs = pre' @ p @ suf" by simp
      with Cons.IH have "contains p cs" by blast
      then show ?thesis by simp
    qed
  qed
qed

lemma slice_to_subset: "set (slice_to n xs) \<subseteq> set xs"
  by (auto simp: slice_to_def dest: in_set_takeD)

lemma slice_to_length: "0 \<le> n \<Longrightarrow> int (length (slice_to n xs)) \<le> n"
  by (simp add: slice_to_def)

lemma post_filter_phrases:
  assumes "phrases \<noteq> []" and "r \<in> set (post_filter phrases topn rows)" and "p \<in> set phrases"
  shows "contains p (text_or_empty (h_text r))"
proof -
  from assms(1,2) have "r \<in> set (filter (\<lambda>r. has_all phrases (h_text r)) rows)"
    using slice_to_subset by (fastforce simp: post_filter_def)
  then have "has_all phrases (h_text r)" by simp
  with assms(3) show ?thesis
    by (simp add: has_all_def list_all_iff)
qed

lemma post_filter_length: "0 \<le> topn \<Longrightarrow> int (length (post_filter phrases topn rows)) \<le> topn"
  by (simp add: post_filter_def slice_to_length)

lemma query_hits_cases:
  assumes "query_hits tok run query phrases topn = Inr rows"
  shows "rows = [] \<or> (\<exists>raw. rows = post_filter phrases topn raw)"
  using assms
  by (auto simp: query_hits_def Let_def
      split: option.splits if_splits sum.splits db_error.splits)

text \<open>
  Claim C2. With a non-empty phrase list, every row that \<open>query_hits\<close> returns has a
  text (NULL read as the empty string) of which every phrase is a contiguous, unmodified
  part, and for a result cap \<open>topn\<close> that is not negative at most \<open>topn\<close> rows are
  returned.
\<close>

theorem query_hits_phrase_filter:
  assumes "phrases \<noteq> []" and "0 \<le> topn"
      and "query_hits tok run query phrases topn = Inr rows"
  shows "(\<forall>r\<in>set rows. \<forall>p\<in>set phrases. \<exists>pre suf. text_or_empty (h_text r) = pre @ p @ suf)
       \<and> int (length rows) \<le> topn"
proof -
  from assms(3) consider "rows = []" | raw where "rows = post_filter phrases topn raw"
    using query_hits_cases by blast
  then show ?thesis
  proof cases
    case 1
    with assms(2) show ?thesis by simp
  next
    case 2
    have "\<exists>pre suf. text_or_empty (h_text r) = pre @ p @ suf"
      if "r \<in> set rows" and "p \<in> set phrases" for r p
      using post_filter_phrases [OF assms(1) _ that(2)] that(1) 2 contains_iff by blast
    moreover have "int (length rows) \<le> topn"
      using 2 post_filter_length [OF assms(2)] by simp
    ultimately show ?thesis by blast
  qed
qed

theorem query_hits_phrase_filter_witness:
  "query_hits tok_neko engine_three [29483] [asc ''b'', asc ''c''] 1 = Inr [hit_of (asc ''abc'')]
   \<and> (\<exists>pre suf. asc ''abc'' = pre @ asc ''c'' @ suf)"
proof -
  have q: "build_match_query tok_neko [29483] =
     Some (asc ''(text_tok:'' @ [29483] @ asc '') OR (reading_tok:'' @ [12493, 12467] @ asc '')'')"
    by (simp add: build_match_query_def tokenize_surface_def tokenize_reading_def tok_neko_def
        strip_def py_isspace_def py_or_def strip_quotes_def field_clause_def asc_def)
  have e: "query_hits tok_neko engine_three [29483] [asc ''b'', asc ''c''] 1 = Inr [hit_of (asc ''abc'')]"
    by (simp add: query_hits_def q) 
       (simp add: engine_three_def post_filter_def has_all_def text_or_empty_def hit_of_def
        slice_to_def asc_def)
  have "\<forall>r\<in>set [hit_of (asc ''abc'')]. \<forall>p\<in>set [asc ''b'', asc ''c''].
          \<exists>pre suf. text_or_empty (h_text r) = pre @ p @ suf"
    using query_hits_phrase_filter [of "[asc ''b'', asc ''c'']" 1 tok_neko engine_three "[29483]"
        "[hit_of (asc ''abc'')]"] e
    by simp
  then have "\<exists>pre suf. asc ''abc'' = pre @ asc ''c'' @ suf"
    by (simp add: hit_of_def text_or_empty_def asc_def)
  with e show ?thesis by simp
qed

text \<open>
  Claim C8. Without an index, \<open>query_hits\<close> returns the empty list, which is also
  what it returns when the index has no match, and \<open>search\<close> of search.py lets the
  exception \<open>no such table: fts\<close> leave it.
\<close>

theorem index_absent_outcome:
  "query_hits tok_neko engine_no_index [29483] [] 200 = Inr []
   \<and> query_hits tok_neko engine_no_match [29483] [] 200 = Inr []
   \<and> search tok_neko engine_no_index [29483] 20 False
       = Inl (OperationalError (asc ''no such table: fts''))"
proof -
  have q: "build_match_query tok_neko [29483] =
     Some (asc ''(text_tok:'' @ [29483] @ asc '') OR (reading_tok:'' @ [12493, 12467] @ asc '')'')"
    by (simp add: build_match_query_def tokenize_surface_def tokenize_reading_def tok_neko_def
        strip_def py_isspace_def py_or_def strip_quotes_def field_clause_def asc_def)
  have l: "lower (asc ''no such table: fts'') = asc ''no such table: fts''"
    by (simp add: lower_def asc_def)
  have c1: "contains (asc ''no such table: fts'') (asc ''no such table: fts'')"
    by (simp add: contains_iff) (metis append_Nil append_Nil2)
  have c2: "\<not> contains (asc ''no such function: bm25'') (asc ''no such table: fts'')"
    by (simp add: asc_def)
  show ?thesis
    by (simp add: query_hits_def search_def q engine_no_index_def engine_no_match_def l c1 c2
        post_filter_def slice_to_def)
qed
section \<open>Properties of the ingest\<close>

text \<open>
  Claim C7. Ingesting the same record twice leaves one row with its id in \<open>entries\<close>,
  but the second ingest adds the record's tokens to the index once more, with
  \<open>insert_entry\<close> and with \<open>insert_batch\<close> alike: the stored state is not the one after
  the first ingest.
\<close>

theorem second_ingest_indexes_again:
  "map_option entries (Option.bind (insert_entry (\<lambda>s. s) tok_neko empty_store neko_entry)
       (\<lambda>st. insert_entry (\<lambda>s. s) tok_neko st neko_entry)) = Some [(1, neko_entry)]
   \<and> map_option fts (insert_entry (\<lambda>s. s) tok_neko empty_store neko_entry)
       = Some [(1, [29483], [12493, 12467])]
   \<and> map_option fts (Option.bind (insert_entry (\<lambda>s. s) tok_neko empty_store neko_entry)
       (\<lambda>st. insert_entry (\<lambda>s. s) tok_neko st neko_entry))
       = Some [(1, [29483], [12493, 12467]), (1, [29483], [12493, 12467])]
   \<and> fts (insert_batch (\<lambda>s. s) tok_neko (insert_batch (\<lambda>s. s) tok_neko empty_store [neko_entry])
            [neko_entry])
       = [(1, [29483], [12493, 12467]), (1, [29483], [12493, 12467])]"
proof -
  have c: "jp_clean (\<lambda>s. s) (e_text neko_entry) = [29483]"
    by (simp add: jp_clean_def nfkc_def strip_def py_isspace_def clean_controls_def bidi_ctrl_def
        neko_entry_def)
  have t: "join (asc '' '') (tokenize_surface tok_neko [29483]) = [29483]"
     "join (asc '' '') (tokenize_reading_kana tok_neko [29483]) = [12493, 12467]"
     "join (asc '' '') (tokenize_reading_kana_gui tok_neko [29483]) = [12493, 12467]"
    by (simp_all add: tokenize_surface_def tokenize_reading_kana_def tokenize_reading_kana_gui_def
        reading_kana_def tok_neko_def strip_def py_isspace_def py_or_def asc_def)
  have i1: "insert_entry (\<lambda>s. s) tok_neko empty_store neko_entry
      = Some \<lparr>entries = [(Suc 0, neko_entry)], fts = [(Suc 0, [29483], [12493, 12467])]\<rparr>"
    by (simp add: insert_entry_def insert_or_ignore_def select_rowid_def insert_fts_def
        next_rowid_def empty_store_def c t)
  have i2: "insert_entry (\<lambda>s. s) tok_neko
        \<lparr>entries = [(Suc 0, neko_entry)], fts = [(Suc 0, [29483], [12493, 12467])]\<rparr> neko_entry
      = Some \<lparr>entries = [(Suc 0, neko_entry)],
              fts = [(Suc 0, [29483], [12493, 12467]), (Suc 0, [29483], [12493, 12467])]\<rparr>"
    by (simp add: insert_entry_def insert_or_ignore_def select_rowid_def insert_fts_def c t Let_def)
  have b1: "insert_batch (\<lambda>s. s) tok_neko empty_store [neko_entry]
      = \<lparr>entries = [(Suc 0, neko_entry)], fts = [(Suc 0, [29483], [12493, 12467])]\<rparr>"
    by (simp add: insert_batch_def index_row_gui_def insert_or_ignore_def select_rowid_def
        insert_fts_def next_rowid_def empty_store_def c t Let_def)
  have b2: "insert_batch (\<lambda>s. s) tok_neko
        \<lparr>entries = [(Suc 0, neko_entry)], fts = [(Suc 0, [29483], [12493, 12467])]\<rparr> [neko_entry]
      = \<lparr>entries = [(Suc 0, neko_entry)],
         fts = [(Suc 0, [29483], [12493, 12467]), (Suc 0, [29483], [12493, 12467])]\<rparr>"
    by (simp add: insert_batch_def index_row_gui_def insert_or_ignore_def select_rowid_def
        insert_fts_def c t Let_def)
  show ?thesis
    by (simp add: i1 i2 b1 b2)
qed
section \<open>Properties of the snippet cache\<close>

lemma make_snippet_hit:
  assumes "mkdir_ok w"
      and "file_size w (cache_file env media start_ms' end_ms' pad_ms) = Some sz"
      and "sz > 1024"
  shows "make_snippet env ffmpeg_exe media start_ms' end_ms' pad_ms w
           = (Some (cache_file env media start_ms' end_ms' pad_ms), w)"
  using assms by (simp add: make_snippet_def)

lemma make_snippet_mkdir:
  "fst (make_snippet env ffmpeg_exe media start_ms' end_ms' pad_ms w) = Some out \<Longrightarrow> mkdir_ok w"
  by (auto simp: make_snippet_def Let_def split: prod.splits if_splits)

lemma make_snippet_world:
  "mkdir_ok (snd (make_snippet env ffmpeg_exe media start_ms' end_ms' pad_ms w)) = mkdir_ok w"
  by (auto simp: make_snippet_def Let_def split: prod.splits)

lemma make_snippet_name:
  "fst (make_snippet env ffmpeg_exe media start_ms' end_ms' pad_ms w) = Some out \<Longrightarrow>
     out = cache_file env media start_ms' end_ms' pad_ms"
  by (auto simp: make_snippet_def Let_def split: prod.splits if_splits)

text \<open>
  Claim C9, as the code has it. A call that returns a file returns the file named by
  the hash of its four values, so two calls with the same values name the same file; and
  when the file left by the first call is larger than 1024 bytes, the second call
  returns it and changes nothing: no command is run.
\<close>

theorem make_snippet_cached:
  assumes "make_snippet env ffmpeg_exe media start_ms' end_ms' pad_ms w = (Some out, w1)"
      and "file_size w1 out = Some sz" and "sz > 1024"
  shows "out = cache_file env media start_ms' end_ms' pad_ms
       \<and> make_snippet env ffmpeg_exe media start_ms' end_ms' pad_ms w1 = (Some out, w1)"
proof -
  have name: "out = cache_file env media start_ms' end_ms' pad_ms"
    using assms(1) make_snippet_name [of env ffmpeg_exe media start_ms' end_ms' pad_ms w out]
    by simp
  have "mkdir_ok w"
    using assms(1) make_snippet_mkdir [of env ffmpeg_exe media start_ms' end_ms' pad_ms w out]
    by simp
  then have "mkdir_ok w1"
    using assms(1) make_snippet_world [of env ffmpeg_exe media start_ms' end_ms' pad_ms w]
    by simp
  then show ?thesis
    using make_snippet_hit [of w1 env media start_ms' end_ms' pad_ms sz ffmpeg_exe] assms(2,3) name
    by simp
qed

theorem make_snippet_cached_witness:
  "make_snippet (env_writing 16000) (asc ''ffmpeg'') (asc ''a.mkv'') 1000 4000 400 fresh_world
     = (Some (asc ''cache/0f.mp3''),
        \<lparr>file_size = (\<lambda>p. None)(asc ''cache/0f.mp3'' \<mapsto> 16000), mkdir_ok = True,
         commands = [\<lparr>exe = asc ''ffmpeg'', seek_ms = 600, media_in = asc ''a.mkv'',
                      duration_ms = 3800, out_file = asc ''cache/0f.mp3''\<rparr>]\<rparr>)
   \<and> make_snippet (env_writing 16000) (asc ''ffmpeg'') (asc ''a.mkv'') 1000 4000 400
       \<lparr>file_size = (\<lambda>p. None)(asc ''cache/0f.mp3'' \<mapsto> 16000), mkdir_ok = True,
         commands = [\<lparr>exe = asc ''ffmpeg'', seek_ms = 600, media_in = asc ''a.mkv'',
                      duration_ms = 3800, out_file = asc ''cache/0f.mp3''\<rparr>]\<rparr>
     = (Some (asc ''cache/0f.mp3''),
        \<lparr>file_size = (\<lambda>p. None)(asc ''cache/0f.mp3'' \<mapsto> 16000), mkdir_ok = True,
         commands = [\<lparr>exe = asc ''ffmpeg'', seek_ms = 600, media_in = asc ''a.mkv'',
                      duration_ms = 3800, out_file = asc ''cache/0f.mp3''\<rparr>]\<rparr>)"
proof -
  have first: "make_snippet (env_writing 16000) (asc ''ffmpeg'') (asc ''a.mkv'') 1000 4000 400 fresh_world
     = (Some (asc ''cache/0f.mp3''),
        \<lparr>file_size = (\<lambda>p. None)(asc ''cache/0f.mp3'' \<mapsto> 16000), mkdir_ok = True,
         commands = [\<lparr>exe = asc ''ffmpeg'', seek_ms = 600, media_in = asc ''a.mkv'',
                      duration_ms = 3800, out_file = asc ''cache/0f.mp3''\<rparr>]\<rparr>)"
    by (simp add: make_snippet_def env_writing_def fresh_world_def cache_file_def asc_def Let_def)
  have sz: "file_size \<lparr>file_size = (\<lambda>p. None)(asc ''cache/0f.mp3'' \<mapsto> 16000), mkdir_ok = True,
         commands = [\<lparr>exe = asc ''ffmpeg'', seek_ms = 600, media_in = asc ''a.mkv'',
                      duration_ms = 3800, out_file = asc ''cache/0f.mp3''\<rparr>]\<rparr>
       (asc ''cache/0f.mp3'') = Some 16000"
    by simp
  have gt: "(16000::nat) > 1024"
    by simp
  from first make_snippet_cached [OF first sz gt, THEN conjunct2] show ?thesis
    by (rule conjI)
qed

text \<open>
  Claim C9 as it is written, without the size test, fails when the file produced is not
  larger than 1024 bytes: the first call returns the file, and the second call with the
  same values runs the command again.
\<close>

theorem make_snippet_small_file_rerun:
  "fst (make_snippet (env_writing 100) (asc ''ffmpeg'') (asc ''a.mkv'') 1000 1001 0 fresh_world)
     = Some (asc ''cache/0f.mp3'')
   \<and> length (commands (snd (make_snippet (env_writing 100) (asc ''ffmpeg'') (asc ''a.mkv'') 1000 1001 0
        fresh_world))) = 1
   \<and> length (commands (snd (make_snippet (env_writing 100) (asc ''ffmpeg'') (asc ''a.mkv'') 1000 1001 0
        (snd (make_snippet (env_writing 100) (asc ''ffmpeg'') (asc ''a.mkv'') 1000 1001 0
           fresh_world))))) = 2"
proof -
  have first: "make_snippet (env_writing 100) (asc ''ffmpeg'') (asc ''a.mkv'') 1000 1001 0 fresh_world
     = (Some (asc ''cache/0f.mp3''),
        \<lparr>file_size = (\<lambda>p. None)(asc ''cache/0f.mp3'' \<mapsto> 100), mkdir_ok = True,
         commands = [\<lparr>exe = asc ''ffmpeg'', seek_ms = 1000, media_in = asc ''a.mkv'',
                      duration_ms = 1, out_file = asc ''cache/0f.mp3''\<rparr>]\<rparr>)"
    by (simp add: make_snippet_def env_writing_def fresh_world_def cache_file_def asc_def Let_def)
  have second: "length (commands (snd (make_snippet (env_writing 100) (asc ''ffmpeg'') (asc ''a.mkv'')
        1000 1001 0
        \<lparr>file_size = (\<lambda>p. None)(asc ''cache/0f.mp3'' \<mapsto> 100), mkdir_ok = True,
         commands = [\<lparr>exe = asc ''ffmpeg'', seek_ms = 1000, media_in = asc ''a.mkv'',
                      duration_ms = 1, out_file = asc ''cache/0f.mp3''\<rparr>]\<rparr>))) = 2"
    by (simp add: make_snippet_def env_writing_def cache_file_def asc_def Let_def)
  show ?thesis
    by (simp add: first second)
qed
section \<open>Properties of the highlighter\<close>

subsection \<open>Covered positions\<close>

lemma covered_Nil [simp]: "covered [] = {}"
  by (simp add: covered_def)

lemma covered_Cons [simp]: "covered ((s, e) # rs) = {s..<e} \<union> covered rs"
  by (simp add: covered_def)

lemma covered_append [simp]: "covered (xs @ ys) = covered xs \<union> covered ys"
  by (auto simp: covered_def)

lemma covered_concat: "covered (concat xss) = (\<Union>xs\<in>set xss. covered xs)"
  by (induction xss) auto

lemma covered_set_eq: "set xs = set ys \<Longrightarrow> covered xs = covered ys"
  by (simp add: covered_def)

lemma covered_filter_nonempty: "covered (filter (\<lambda>(x, y). y > x) rs) = covered rs"
proof (induction rs)
  case Nil
  then show ?case by simp
next
  case (Cons r rs)
  obtain x y where r: "r = (x, y)" by (cases r)
  show ?case
    using Cons.IH by (cases "y > x") (simp_all add: r)
qed

lemma covered_butlast: "covered (butlast rs) \<subseteq> covered rs"
  by (auto simp: covered_def dest: in_set_butlastD)

lemma covered_by_Nil [simp]: "covered_by l [] = {}"
  by (simp add: covered_by_def)

lemma covered_by_Cons [simp]:
  "covered_by l ((s, e, t) # xs) = (if t = l then {s..<e} else {}) \<union> covered_by l xs"
  by (simp add: covered_by_def)

lemma covered_by_append [simp]: "covered_by l (xs @ ys) = covered_by l xs \<union> covered_by l ys"
  by (auto simp: covered_by_def)

lemma covered_by_set_eq: "set xs = set ys \<Longrightarrow> covered_by l xs = covered_by l ys"
  by (simp add: covered_by_def)

lemma covered_by_map_label:
  "covered_by l (map (\<lambda>(s, e). (s, e, t)) rs) = (if t = l then covered rs else {})"
  by (induction rs) auto

subsection \<open>Interval subtraction\<close>

lemma covered_cut_segment:
  "covered (cut_segment (bs_s, bs_e) (x, y)) = {x..<y} - {bs_s..<bs_e}"
proof (cases "bs_e \<le> x \<or> bs_s \<ge> y")
  case True
  then have "cut_segment (bs_s, bs_e) (x, y) = [(x, y)]"
    by (simp add: cut_segment_def)
  moreover from True have "{x..<y} - {bs_s..<bs_e} = {x..<y}"
    by auto
  ultimately show ?thesis by simp
next
  case False
  then have lt: "x < bs_e" "bs_s < y" by simp_all
  from False have "cut_segment (bs_s, bs_e) (x, y)
      = (if x < bs_s then [(x, bs_s)] else []) @ (if bs_e < y then [(bs_e, y)] else [])"
    by (simp add: cut_segment_def)
  then have "covered (cut_segment (bs_s, bs_e) (x, y))
      = (if x < bs_s then {x..<bs_s} else {}) \<union> (if bs_e < y then {bs_e..<y} else {})"
    by simp
  also have "\<dots> = {x..<y} - {bs_s..<bs_e}"
  proof (rule set_eqI)
    fix i
    show "i \<in> (if x < bs_s then {x..<bs_s} else {}) \<union> (if bs_e < y then {bs_e..<y} else {})
            \<longleftrightarrow> i \<in> {x..<y} - {bs_s..<bs_e}"
      using lt by (simp split: if_splits) linarith
  qed
  finally show ?thesis .
qed

lemma covered_cut_all:
  "covered (concat (map (cut_segment (bs_s, bs_e)) segments)) = covered segments - {bs_s..<bs_e}"
proof (induction segments)
  case Nil
  then show ?case by simp
next
  case (Cons seg segments)
  obtain x y where seg: "seg = (x, y)" by (cases seg)
  show ?case
    using Cons.IH by (auto simp: seg covered_cut_segment)
qed

lemma covered_subtract_loop: "covered (subtract_loop segments bs) = covered segments - covered bs"
proof (induction bs arbitrary: segments)
  case Nil
  then show ?case by simp
next
  case (Cons b bs)
  obtain bs_s bs_e where b: "b = (bs_s, bs_e)" by (cases b)
  let ?new = "concat (map (cut_segment b) segments)"
  have new: "covered ?new = covered segments - {bs_s..<bs_e}"
    unfolding b by (rule covered_cut_all)
  show ?case
  proof (cases "?new = []")
    case True
    have e: "covered ?new = {}"
      by (simp only: True covered_Nil)
    with new have "covered segments - {bs_s..<bs_e} = {}"
      by simp
    then have r: "covered segments - covered (b # bs) = {}"
      by (auto simp: b)
    have "subtract_loop segments (b # bs) = ?new"
      using True by (auto simp: Let_def)
    with e r show ?thesis by simp
  next
    case False
    then have "subtract_loop segments (b # bs) = subtract_loop ?new bs"
      by (auto simp: Let_def)
    then have "covered (subtract_loop segments (b # bs)) = covered ?new - covered bs"
      using Cons.IH by simp
    then show ?thesis
      using new by (auto simp: b)
  qed
qed

lemma covered_subtract_intervals:
  "covered (subtract_intervals (s, e) bs) = {s..<e} - covered bs"
  by (simp add: subtract_intervals_def covered_filter_nonempty covered_subtract_loop)

lemma subtract_intervals_nonempty: "(x, y) \<in> set (subtract_intervals a bs) \<Longrightarrow> x < y"
  by (simp add: subtract_intervals_def)

subsection \<open>Phrase ranges\<close>

lemma find_index_occurs: "find_index p t = Some i \<Longrightarrow> take (length p) (drop i t) = p"
proof (induction t arbitrary: i)
  case Nil
  then show ?case by (simp split: if_splits)
next
  case (Cons c cs)
  show ?case
  proof (cases "take (length p) (c # cs) = p")
    case True
    with Cons.prems show ?thesis by simp
  next
    case False
    with Cons.prems obtain j where "find_index p cs = Some j" and "i = Suc j"
      by auto
    with Cons.IH show ?thesis by simp
  qed
qed

lemma str_find_occurs:
  "str_find text p start = Some i \<Longrightarrow> take (length p) (drop i text) = p"
  by (auto simp: str_find_def add.commute split: if_splits dest!: find_index_occurs)

lemma phrase_occurrences_sound:
  "(a, b) \<in> set (phrase_occurrences tx p start) \<Longrightarrow>
     p \<noteq> [] \<and> b = a + length p \<and> b \<le> length tx \<and> take (length p) (drop a tx) = p"
proof (induction tx p start rule: phrase_occurrences.induct)
  case (1 tx p start)
  have unf: "phrase_occurrences tx p start =
      (if p = [] then []
       else case str_find tx p start of
              None \<Rightarrow> []
            | Some i \<Rightarrow> (i, i + length p) # phrase_occurrences tx p (i + length p))"
    by (rule phrase_occurrences.simps)
  show ?case
  proof (cases "p = []")
    case True
    with "1.prems" unf show ?thesis
      by simp
  next
    case False
    show ?thesis
    proof (cases "str_find tx p start")
      case None
      with False "1.prems" unf show ?thesis
        by simp
    next
      case (Some i)
      with False "1.prems" unf have
        "(a, b) = (i, i + length p) \<or> (a, b) \<in> set (phrase_occurrences tx p (i + length p))"
        by simp
      then show ?thesis
      proof
        assume "(a, b) = (i, i + length p)"
        then show ?thesis
          using False Some str_find_bound [of tx p start i] str_find_occurs [of tx p start i]
          by simp
      next
        assume "(a, b) \<in> set (phrase_occurrences tx p (i + length p))"
        then show ?thesis
          using "1.IH" [OF False Some] by simp
      qed
    qed
  qed
qed

lemma covered_occurrences:
  "covered (concat (map (\<lambda>p. phrase_occurrences text p 0) phrases)) \<subseteq> phrase_positions text phrases"
proof
  fix i
  assume "i \<in> covered (concat (map (\<lambda>p. phrase_occurrences text p 0) phrases))"
  then obtain p a b where p: "p \<in> set phrases" and ab: "(a, b) \<in> set (phrase_occurrences text p 0)"
    and i: "a \<le> i" "i < b"
    by (auto simp: covered_def)
  from phrase_occurrences_sound [OF ab] p i show "i \<in> phrase_positions text phrases"
    by (auto simp: phrase_positions_def)
qed

lemma occurrences_nonempty:
  "(a, b) \<in> set (concat (map (\<lambda>p. phrase_occurrences text p 0) phrases)) \<Longrightarrow> a < b"
  by (auto dest!: phrase_occurrences_sound)

lemma merge_step_covered: "covered (merge_step merged (s, e)) \<subseteq> covered merged \<union> {s..<e}"
proof (cases "merged = [] \<or> s > snd (last merged)")
  case True
  then show ?thesis by (auto simp: merge_step_def)
next
  case False
  then obtain ys s0 e0 where m: "merged = ys @ [(s0, e0)]" and le: "s \<le> e0"
    by (cases merged rule: rev_cases) auto
  then have "merge_step merged (s, e) = ys @ [(s0, max e0 e)]"
    by (simp add: merge_step_def)
  then show ?thesis
    using le by (auto simp: m)
qed

lemma merge_step_nonempty:
  assumes "\<forall>(x, y)\<in>set merged. x < y" and "s < e"
  shows "\<forall>(x, y)\<in>set (merge_step merged (s, e)). x < y"
proof (cases "merged = [] \<or> s > snd (last merged)")
  case True
  with assms show ?thesis by (auto simp: merge_step_def)
next
  case False
  then obtain ys s0 e0 where m: "merged = ys @ [(s0, e0)]"
    by (cases merged rule: rev_cases) auto
  with False have "merge_step merged (s, e) = ys @ [(s0, max e0 e)]"
    by (simp add: merge_step_def)
  with assms(1) show ?thesis
    by (auto simp: m)
qed

lemma merge_all_covered: "covered (foldl merge_step merged rs) \<subseteq> covered merged \<union> covered rs"
proof (induction rs arbitrary: merged)
  case Nil
  then show ?case by simp
next
  case (Cons r rs)
  obtain s e where r: "r = (s, e)" by (cases r)
  have "covered (foldl merge_step (merge_step merged r) rs) \<subseteq> covered (merge_step merged r) \<union> covered rs"
    by (rule Cons.IH)
  with merge_step_covered [of merged s e] show ?case
    by (auto simp: r)
qed

lemma merge_all_nonempty:
  "\<forall>(x, y)\<in>set merged. x < y \<Longrightarrow> \<forall>(x, y)\<in>set rs. x < y \<Longrightarrow>
     \<forall>(x, y)\<in>set (foldl merge_step merged rs). x < y"
proof (induction rs arbitrary: merged)
  case Nil
  then show ?case by simp
next
  case (Cons r rs)
  obtain s e where r: "r = (s, e)" by (cases r)
  from Cons.prems have "s < e" and rest: "\<forall>(x, y)\<in>set rs. x < y"
    by (auto simp: r)
  from merge_step_nonempty [OF Cons.prems(1) \<open>s < e\<close>] rest
  have "\<forall>(x, y)\<in>set (foldl merge_step (merge_step merged (s, e)) rs). x < y"
    by (rule Cons.IH)
  then show ?case by (simp add: r)
qed

lemma phrase_ranges_covered: "covered (find_phrase_ranges text phrases) \<subseteq> phrase_positions text phrases"
proof -
  let ?occ = "concat (map (\<lambda>p. phrase_occurrences text p 0) phrases)"
  have "covered (find_phrase_ranges text phrases) \<subseteq> covered (sort ?occ)"
    using merge_all_covered [of "[]" "sort ?occ"] by (simp add: find_phrase_ranges_def Let_def)
  also have "covered (sort ?occ) = covered ?occ"
    by (rule covered_set_eq) simp
  also have "\<dots> \<subseteq> phrase_positions text phrases"
    by (rule covered_occurrences)
  finally show ?thesis .
qed

lemma phrase_ranges_nonempty: "(s, e) \<in> set (find_phrase_ranges text phrases) \<Longrightarrow> s < e"
proof -
  let ?occ = "concat (map (\<lambda>p. phrase_occurrences text p 0) phrases)"
  have "\<forall>(x, y)\<in>set (sort ?occ). x < y"
  proof -
    have "x < y" if "(x, y) \<in> set ?occ" for x y
      using that by (rule occurrences_nonempty)
    then show ?thesis by auto
  qed
  then have "\<forall>(x, y)\<in>set (foldl merge_step [] (sort ?occ)). x < y"
    by (intro merge_all_nonempty) simp_all
  then show "(s, e) \<in> set (find_phrase_ranges text phrases) \<Longrightarrow> s < e"
    by (auto simp: find_phrase_ranges_def Let_def)
qed

lemma phrase_positions_bound: "i \<in> phrase_positions text phrases \<Longrightarrow> i < length text"
  by (auto simp: phrase_positions_def)

subsection \<open>The walk over the labeled ranges\<close>

lemma emit_step_Nil: "emit_step [] (s, e, t) = [(s, e, t)]"
  by (simp add: emit_step_def)

lemma emit_step_snoc:
  "emit_step (ys @ [(s0, e0, t0)]) (s, e, t) =
     (if t = Token \<and> list_ex (\<lambda>(ps, pe, pt). pt = Phrase \<and> \<not> (e \<le> ps \<or> s \<ge> pe)) (ys @ [(s0, e0, t0)])
      then ys @ [(s0, e0, t0)]
      else if t0 = t \<and> s \<le> e0 then ys @ [(s0, max e0 e, t)]
      else ys @ [(s0, e0, t0), (s, e, t)])"
  by (auto simp: emit_step_def)

lemma walk_inv_tail:
  assumes "walk_inv out ((s, e, t) # xs)"
  shows "sorted (map fst xs)"
    and "\<forall>(s, e, t)\<in>set xs. s < e"
    and "\<forall>(s, e, t)\<in>set xs. \<forall>(s', e', t')\<in>set xs. t \<noteq> t' \<longrightarrow> e \<le> s' \<or> e' \<le> s"
    and "s < e"
    and "\<forall>(s', e', t')\<in>set xs. s \<le> s' \<and> (t' \<noteq> t \<longrightarrow> e \<le> s')"
proof -
  from assms have srt: "sorted (map fst ((s, e, t) # xs))"
    and ne: "\<forall>(s, e, t)\<in>set ((s, e, t) # xs). s < e"
    and cd: "\<forall>(s1, e1, t1)\<in>set ((s, e, t) # xs). \<forall>(s', e', t')\<in>set ((s, e, t) # xs).
               t1 \<noteq> t' \<longrightarrow> e1 \<le> s' \<or> e' \<le> s1"
    by (simp_all add: walk_inv_def)
  from srt show "sorted (map fst xs)" by simp
  from ne show "\<forall>(s, e, t)\<in>set xs. s < e" by simp
  from cd show "\<forall>(s, e, t)\<in>set xs. \<forall>(s', e', t')\<in>set xs. t \<noteq> t' \<longrightarrow> e \<le> s' \<or> e' \<le> s"
    by auto
  from ne show "s < e" by simp
  show "\<forall>(s', e', t')\<in>set xs. s \<le> s' \<and> (t' \<noteq> t \<longrightarrow> e \<le> s')"
  proof (clarify)
    fix s' e' t'
    assume m: "(s', e', t') \<in> set xs"
    from srt m have le: "s \<le> s'" by force
    from ne m have ne': "s' < e'" by auto
    have "e \<le> s'" if "t' \<noteq> t"
    proof -
      from cd m that have "e \<le> s' \<or> e' \<le> s" by fastforce
      with le ne' show ?thesis by linarith
    qed
    with le show "s \<le> s' \<and> (t' \<noteq> t \<longrightarrow> e \<le> s')" by simp
  qed
qed

lemma walk_inv_out:
  assumes "walk_inv out ((s, e, t) # xs)"
  shows "sorted_wrt (\<lambda>a b. fst (snd a) \<le> fst b) out"
    and "\<forall>(s, e, t)\<in>set out. s < e"
    and "\<forall>(s0, e0, t0)\<in>set out. s0 \<le> s \<and> (t \<noteq> t0 \<longrightarrow> e0 \<le> s)"
    and "\<forall>(s0, e0, t0)\<in>set out. \<forall>(s, e, t)\<in>set xs. s0 \<le> s \<and> (t \<noteq> t0 \<longrightarrow> e0 \<le> s)"
  using assms by (auto simp: walk_inv_def)

lemma walk_step:
  assumes inv: "walk_inv out ((s, e, t) # xs)"
  shows "walk_inv (emit_step out (s, e, t)) xs"
    and "covered_by l (emit_step out (s, e, t)) = covered_by l out \<union> covered_by l [(s, e, t)]"
proof -
  note tl = walk_inv_tail [OF inv] and o = walk_inv_out [OF inv]
  have both: "walk_inv (emit_step out (s, e, t)) xs
      \<and> covered_by l (emit_step out (s, e, t)) = covered_by l out \<union> covered_by l [(s, e, t)]"
  proof (cases out rule: rev_cases)
    case Nil
    have "walk_inv [(s, e, t)] xs"
      using tl by (simp add: walk_inv_def)
    then show ?thesis
      by (simp add: Nil emit_step_Nil)
  next
    case (snoc ys l0)
    obtain s0 e0 t0 where l0: "l0 = (s0, e0, t0)" by (cases l0)
    have out: "out = ys @ [(s0, e0, t0)]" by (simp add: snoc l0)
    from o(1) have ch: "sorted_wrt (\<lambda>a b. fst (snd a) \<le> fst b) ys"
      and ys_le: "\<forall>a\<in>set ys. fst (snd a) \<le> s0"
      by (simp_all add: out sorted_wrt_append)
    from o(2) have ne0: "s0 < e0" and ne_ys: "\<forall>(s, e, t)\<in>set ys. s < e"
      by (simp_all add: out)
    from o(3) have last_x: "s0 \<le> s" "t \<noteq> t0 \<Longrightarrow> e0 \<le> s"
      by (simp_all add: out)
    from o(4) have last_xs: "\<forall>(s, e, t)\<in>set xs. s0 \<le> s \<and> (t \<noteq> t0 \<longrightarrow> e0 \<le> s)"
      and ys_xs: "\<forall>(s0, e0, t0)\<in>set ys. \<forall>(s, e, t)\<in>set xs. s0 \<le> s \<and> (t \<noteq> t0 \<longrightarrow> e0 \<le> s)"
      by (simp_all add: out)
    have ys_end: "pe \<le> s" if "(ps, pe, pt) \<in> set ys" for ps pe pt
      using ys_le that last_x(1) by fastforce
    have keep: "\<not> (t = Token \<and> list_ex (\<lambda>(ps, pe, pt). pt = Phrase \<and> \<not> (e \<le> ps \<or> s \<ge> pe))
                    (ys @ [(s0, e0, t0)]))"
    proof
      assume a: "t = Token \<and> list_ex (\<lambda>(ps, pe, pt). pt = Phrase \<and> \<not> (e \<le> ps \<or> s \<ge> pe))
                    (ys @ [(s0, e0, t0)])"
      then obtain ps pe where m: "(ps, pe, Phrase) \<in> set (ys @ [(s0, e0, t0)])" and
        ov: "\<not> (e \<le> ps \<or> s \<ge> pe)"
        by (auto simp: list_ex_iff)
      from m consider "(ps, pe, Phrase) \<in> set ys" | "(ps, pe, Phrase) = (s0, e0, t0)" by auto
      then show False
      proof cases
        case 1
        with ys_end ov show False by auto
      next
        case 2
        with a last_x(2) ov show False by auto
      qed
    qed
    show ?thesis
    proof (cases "t0 = t \<and> s \<le> e0")
      case True
      have step: "emit_step out (s, e, t) = ys @ [(s0, max e0 e, t)]"
        by (simp only: out emit_step_snoc if_not_P [OF keep] if_P [OF True])
      have "walk_inv (ys @ [(s0, max e0 e, t)]) xs"
        unfolding walk_inv_def
      proof (intro conjI)
        show "sorted_wrt (\<lambda>a b. fst (snd a) \<le> fst b) (ys @ [(s0, max e0 e, t)])"
          using ch ys_le by (simp add: sorted_wrt_append)
        show "\<forall>(s, e, t)\<in>set (ys @ [(s0, max e0 e, t)]). s < e"
          using ne_ys ne0 by auto
        show "sorted (map fst xs)" by (rule tl(1))
        show "\<forall>(s, e, t)\<in>set xs. s < e" by (rule tl(2))
        show "\<forall>(s, e, t)\<in>set xs. \<forall>(s', e', t')\<in>set xs. t \<noteq> t' \<longrightarrow> e \<le> s' \<or> e' \<le> s"
          by (rule tl(3))
        show "\<forall>(s0, e0, t0)\<in>set (ys @ [(s0, max e0 e, t)]). \<forall>(s, e, t)\<in>set xs.
                s0 \<le> s \<and> (t \<noteq> t0 \<longrightarrow> e0 \<le> s)"
          using ys_xs last_xs tl(5) True by fastforce
      qed
      moreover have "covered_by l (ys @ [(s0, max e0 e, t)])
          = covered_by l (ys @ [(s0, e0, t0)]) \<union> covered_by l [(s, e, t)]"
        using True last_x(1) by auto
      ultimately have "walk_inv (ys @ [(s0, max e0 e, t)]) xs
          \<and> covered_by l (ys @ [(s0, max e0 e, t)])
              = covered_by l (ys @ [(s0, e0, t0)]) \<union> covered_by l [(s, e, t)]"
        by (rule conjI)
      then show ?thesis
        by (simp only: step) (simp only: out)
    next
      case False
      have step: "emit_step out (s, e, t) = ys @ [(s0, e0, t0), (s, e, t)]"
        by (simp only: out emit_step_snoc if_not_P [OF keep] if_not_P [OF False])
      have e0s: "e0 \<le> s"
        using False last_x(2) by (cases "t0 = t") auto
      have "walk_inv (ys @ [(s0, e0, t0), (s, e, t)]) xs"
        unfolding walk_inv_def
      proof (intro conjI)
        have "\<forall>a\<in>set ys. fst (snd a) \<le> s"
          using ys_end by auto
        then show "sorted_wrt (\<lambda>a b. fst (snd a) \<le> fst b) (ys @ [(s0, e0, t0), (s, e, t)])"
          using ch ys_le e0s by (simp add: sorted_wrt_append)
        show "\<forall>(s, e, t)\<in>set (ys @ [(s0, e0, t0), (s, e, t)]). s < e"
          using ne_ys ne0 tl(4) by auto
        show "sorted (map fst xs)" by (rule tl(1))
        show "\<forall>(s, e, t)\<in>set xs. s < e" by (rule tl(2))
        show "\<forall>(s, e, t)\<in>set xs. \<forall>(s', e', t')\<in>set xs. t \<noteq> t' \<longrightarrow> e \<le> s' \<or> e' \<le> s"
          by (rule tl(3))
        show "\<forall>(s0, e0, t0)\<in>set (ys @ [(s0, e0, t0), (s, e, t)]). \<forall>(s, e, t)\<in>set xs.
                s0 \<le> s \<and> (t \<noteq> t0 \<longrightarrow> e0 \<le> s)"
          using ys_xs last_xs tl(5) by fastforce
      qed
      moreover have "covered_by l (ys @ [(s0, e0, t0), (s, e, t)])
          = covered_by l (ys @ [(s0, e0, t0)]) \<union> covered_by l [(s, e, t)]"
        by auto
      ultimately have "walk_inv (ys @ [(s0, e0, t0), (s, e, t)]) xs
          \<and> covered_by l (ys @ [(s0, e0, t0), (s, e, t)])
              = covered_by l (ys @ [(s0, e0, t0)]) \<union> covered_by l [(s, e, t)]"
        by (rule conjI)
      then show ?thesis
        by (simp only: step) (simp only: out)
    qed
  qed
  from both show "walk_inv (emit_step out (s, e, t)) xs" by simp
  from both show "covered_by l (emit_step out (s, e, t)) = covered_by l out \<union> covered_by l [(s, e, t)]"
    by simp
qed

lemma walk_all:
  "walk_inv out xs \<Longrightarrow>
     walk_inv (foldl emit_step out xs) []
   \<and> covered_by l (foldl emit_step out xs) = covered_by l out \<union> covered_by l xs"
proof (induction xs arbitrary: out)
  case Nil
  then show ?case by simp
next
  case (Cons x xs)
  obtain s e t where x: "x = (s, e, t)" by (cases x)
  from Cons.prems have inv: "walk_inv out ((s, e, t) # xs)" by (simp add: x)
  from walk_step(1) [OF inv] have
    "walk_inv (foldl emit_step (emit_step out (s, e, t)) xs) []
     \<and> covered_by l (foldl emit_step (emit_step out (s, e, t)) xs)
         = covered_by l (emit_step out (s, e, t)) \<union> covered_by l xs"
    by (rule Cons.IH)
  with walk_step(2) [OF inv, of l] show ?case
    by (auto simp: x)
qed

subsection \<open>The emitted spans\<close>

lemma token_ranges_covered:
  "covered (token_ranges tok text phrase_ranges surf_qset read_qset)
     = token_positions tok text surf_qset read_qset - covered phrase_ranges"
proof -
  have "covered (token_ranges tok text phrase_ranges surf_qset read_qset)
      = (\<Union>m\<in>{m \<in> set (tok text). token_matches surf_qset read_qset m}.
           {mbegin m..<mend m} - covered phrase_ranges)"
    by (simp add: token_ranges_def covered_concat covered_subtract_intervals)
  also have "\<dots> = token_positions tok text surf_qset read_qset - covered phrase_ranges"
    by (auto simp: token_positions_def)
  finally show ?thesis .
qed

lemma token_ranges_nonempty:
  "(x, y) \<in> set (token_ranges tok text phrase_ranges surf_qset read_qset) \<Longrightarrow> x < y"
  by (auto simp: token_ranges_def dest: subtract_intervals_nonempty)

lemma in_covered: "(x, y) \<in> set rs \<Longrightarrow> {x..<y} \<subseteq> covered rs"
  by (auto simp: covered_def)

lemma in_covered_by: "(x, y, l) \<in> set xs \<Longrightarrow> {x..<y} \<subseteq> covered_by l xs"
  by (force simp: covered_by_def)

lemma sorted_fst_of_key:
  assumes "sorted (map (\<lambda>(s, e, t). (s, t \<noteq> Phrase)) (xs :: lspan list))"
  shows "sorted (map fst xs)"
proof -
  from assms have "sorted_wrt (\<lambda>x y. (\<lambda>(s, e, t). (s, t \<noteq> Phrase)) x \<le> (\<lambda>(s, e, t). (s, t \<noteq> Phrase)) y) xs"
    by (simp add: sorted_map)
  then have "sorted_wrt (\<lambda>x y. fst x \<le> fst y) xs"
    by (rule sorted_wrt_mono_rel [rotated]) (auto simp: less_eq_prod_def)
  then show ?thesis
    by (simp add: sorted_map)
qed

lemma labeled_ranges_set:
  "set (labeled_ranges prs trs)
     = (\<lambda>(s, e). (s, e, Phrase)) ` set prs \<union> (\<lambda>(s, e). (s, e, Token)) ` set trs"
  by (simp add: labeled_ranges_def)

lemma labeled_ranges_sorted: "sorted (map fst (labeled_ranges prs trs))"
  unfolding labeled_ranges_def by (rule sorted_fst_of_key) (rule sorted_sort_key)

lemma labeled_ranges_covered:
  "covered_by l (labeled_ranges prs trs) = (case l of Phrase \<Rightarrow> covered prs | Token \<Rightarrow> covered trs)"
proof -
  have "covered_by l (labeled_ranges prs trs)
      = covered_by l (map (\<lambda>(s, e). (s, e, Phrase)) prs @ map (\<lambda>(s, e). (s, e, Token)) trs)"
    by (rule covered_by_set_eq) (simp add: labeled_ranges_def)
  then show ?thesis
    by (cases l) (simp_all add: covered_by_map_label)
qed

lemma walk_inv_start:
  assumes pne: "\<forall>(s, e)\<in>set prs. s < e" and tne: "\<forall>(s, e)\<in>set trs. s < e"
      and dis: "covered trs \<inter> covered prs = {}"
  shows "walk_inv [] (labeled_ranges prs trs)"
  unfolding walk_inv_def
proof (intro conjI)
  show "sorted_wrt (\<lambda>a b. fst (snd a) \<le> fst b) ([] :: lspan list)" by simp
  show "\<forall>(s, e, t)\<in>set ([] :: lspan list). s < e" by simp
  show "sorted (map fst (labeled_ranges prs trs))" by (rule labeled_ranges_sorted)
  show ne: "\<forall>(s, e, t)\<in>set (labeled_ranges prs trs). s < e"
    using pne tne by (auto simp: labeled_ranges_set)
  have cross: "e \<le> s' \<or> e' \<le> s" if "(s, e) \<in> set prs" and "(s', e') \<in> set trs" for s e s' e'
  proof (rule ccontr)
    assume "\<not> (e \<le> s' \<or> e' \<le> s)"
    moreover from that pne tne have "s < e" and "s' < e'" by auto
    ultimately have "max s s' \<in> {s..<e}" and "max s s' \<in> {s'..<e'}" by auto
    with that in_covered [of s e prs] in_covered [of s' e' trs] dis show False by blast
  qed
  show "\<forall>(s, e, t)\<in>set (labeled_ranges prs trs). \<forall>(s', e', t')\<in>set (labeled_ranges prs trs).
          t \<noteq> t' \<longrightarrow> e \<le> s' \<or> e' \<le> s"
    using cross by (auto simp: labeled_ranges_set)
  show "\<forall>(s0, e0, t0)\<in>set ([] :: lspan list). \<forall>(s, e, t)\<in>set (labeled_ranges prs trs).
          s0 \<le> s \<and> (t \<noteq> t0 \<longrightarrow> e0 \<le> s)"
    by simp
qed

lemma highlight_walk:
  assumes "text \<noteq> []"
  shows "walk_inv (highlight_spans tok text phrases surf_qset read_qset) []"
    and "covered_by Phrase (highlight_spans tok text phrases surf_qset read_qset)
           = covered (find_phrase_ranges text phrases)"
    and "covered_by Token (highlight_spans tok text phrases surf_qset read_qset)
           = token_positions tok text surf_qset read_qset - covered (find_phrase_ranges text phrases)"
proof -
  define prs where "prs = find_phrase_ranges text phrases"
  define out where "out = highlight_spans tok text phrases surf_qset read_qset"
  define trs where "trs = token_ranges tok text prs surf_qset read_qset"
  have out: "out = foldl emit_step [] (labeled_ranges prs trs)"
    using assms(1) by (simp add: out_def highlight_spans_def prs_def trs_def Let_def)
  have tc: "covered trs = token_positions tok text surf_qset read_qset - covered prs"
    unfolding trs_def by (rule token_ranges_covered)
  have "walk_inv [] (labeled_ranges prs trs)"
  proof (rule walk_inv_start)
    show "\<forall>(s, e)\<in>set prs. s < e"
      using phrase_ranges_nonempty by (auto simp: prs_def)
    show "\<forall>(s, e)\<in>set trs. s < e"
      using token_ranges_nonempty by (auto simp: trs_def)
    show "covered trs \<inter> covered prs = {}"
      using tc by auto
  qed
  from walk_all [OF this] have
    w: "walk_inv out []" and
    c: "\<And>l. covered_by l out = covered_by l (labeled_ranges prs trs)"
    by (simp_all add: out)
  from w show "walk_inv (highlight_spans tok text phrases surf_qset read_qset) []"
    by (simp add: out_def)
  from c [of Phrase] show "covered_by Phrase (highlight_spans tok text phrases surf_qset read_qset)
           = covered (find_phrase_ranges text phrases)"
    by (simp add: labeled_ranges_covered out_def prs_def)
  from c [of Token] tc show "covered_by Token (highlight_spans tok text phrases surf_qset read_qset)
           = token_positions tok text surf_qset read_qset - covered (find_phrase_ranges text phrases)"
    by (simp add: labeled_ranges_covered out_def prs_def)
qed

lemma highlight_empty_text [simp]: "highlight_spans tok [] phrases surf_qset read_qset = []"
  by (simp add: highlight_spans_def)

lemma highlight_nonempty:
  "(s, e, l) \<in> set (highlight_spans tok text phrases surf_qset read_qset) \<Longrightarrow> s < e"
proof (cases "text = []")
  case True
  assume "(s, e, l) \<in> set (highlight_spans tok text phrases surf_qset read_qset)"
  with True show ?thesis by simp
next
  case False
  assume "(s, e, l) \<in> set (highlight_spans tok text phrases surf_qset read_qset)"
  with highlight_walk(1) [OF False, of tok phrases surf_qset read_qset] show ?thesis
    by (auto simp: walk_inv_def)
qed

lemma highlight_ordered:
  assumes "i < j" and "j < length (highlight_spans tok text phrases surf_qset read_qset)"
  shows "fst (snd (highlight_spans tok text phrases surf_qset read_qset ! i))
           \<le> fst (highlight_spans tok text phrases surf_qset read_qset ! j)"
proof (cases "text = []")
  case True
  with assms show ?thesis by simp
next
  case False
  from highlight_walk(1) [OF False, of tok phrases surf_qset read_qset]
  have "sorted_wrt (\<lambda>a b. fst (snd a) \<le> fst b) (highlight_spans tok text phrases surf_qset read_qset)"
    by (simp add: walk_inv_def)
  with assms show ?thesis
    by (simp add: sorted_wrt_iff_nth_less)
qed

lemma highlight_covered:
  "covered_by Phrase (highlight_spans tok text phrases surf_qset read_qset)
     = covered (find_phrase_ranges text phrases) \<inter> {i. text \<noteq> []}"
  "covered_by Token (highlight_spans tok text phrases surf_qset read_qset)
     = (token_positions tok text surf_qset read_qset - covered (find_phrase_ranges text phrases))
       \<inter> {i. text \<noteq> []}"
  using highlight_walk(2,3) [of "text" tok phrases surf_qset read_qset]
  by (cases "text = []"; simp)+

text \<open>
  Claim C3. For a text whose tokens end inside it, every span that \<open>highlight_spans\<close>
  emits lies within the text, each span ends before any later one starts, and every
  position of a span is a position of a phrase occurrence or of a token that matches the
  query sets.
\<close>

theorem highlight_spans_coverage:
  assumes "\<forall>m\<in>set (tok text). mend m \<le> length text"
  shows "(let out = highlight_spans tok text phrases surf_qset read_qset in
          (\<forall>(s, e, l)\<in>set out. 0 \<le> s \<and> s \<le> e \<and> e \<le> length text)
        \<and> (\<forall>i j. i < j \<and> j < length out \<longrightarrow> fst (snd (out ! i)) \<le> fst (out ! j))
        \<and> covered_by Phrase out \<union> covered_by Token out
            \<subseteq> phrase_positions text phrases \<union> token_positions tok text surf_qset read_qset)"
proof -
  define out where "out = highlight_spans tok text phrases surf_qset read_qset"
  have sub: "covered_by Phrase out \<union> covered_by Token out
           \<subseteq> phrase_positions text phrases \<union> token_positions tok text surf_qset read_qset"
    using phrase_ranges_covered [of "text" phrases]
    by (auto simp: out_def highlight_covered)
  have tb: "i < length text" if "i \<in> token_positions tok text surf_qset read_qset" for i
    using that assms(1) by (fastforce simp: token_positions_def)
  have bound: "s \<le> e \<and> e \<le> length text" if m: "(s, e, l) \<in> set out" for s e l
  proof -
    from m have lt: "s < e"
      unfolding out_def by (rule highlight_nonempty)
    then have "e - 1 \<in> {s..<e}" by auto
    with in_covered_by [OF m] have "e - 1 \<in> covered_by l out" by blast
    then have "e - 1 \<in> covered_by Phrase out \<union> covered_by Token out"
      by (cases l) auto
    with sub have "e - 1 \<in> phrase_positions text phrases \<union> token_positions tok text surf_qset read_qset"
      by blast
    then have "e - 1 < length text"
      using phrase_positions_bound tb by blast
    with lt show ?thesis by linarith
  qed
  have ord: "fst (snd (out ! i)) \<le> fst (out ! j)" if "i < j" and "j < length out" for i j
    using that unfolding out_def by (rule highlight_ordered)
  from bound ord sub have
    "(\<forall>(s, e, l)\<in>set out. 0 \<le> s \<and> s \<le> e \<and> e \<le> length text)
        \<and> (\<forall>i j. i < j \<and> j < length out \<longrightarrow> fst (snd (out ! i)) \<le> fst (out ! j))
        \<and> covered_by Phrase out \<union> covered_by Token out
            \<subseteq> phrase_positions text phrases \<union> token_positions tok text surf_qset read_qset"
    by blast
  then show ?thesis
    unfolding Let_def out_def .
qed

text \<open>
  Claim C4. For a text whose tokens end inside it: no token-labeled span of the output
  lies inside a phrase range or inside a phrase-labeled span of the output, and it has
  no position in common with a phrase range; and every position of a matching token
  that no phrase range covers lies in a token-labeled span of the output.
\<close>

theorem highlight_phrase_precedence:
  assumes "\<forall>m\<in>set (tok text). mend m \<le> length text"
  shows "(let out = highlight_spans tok text phrases surf_qset read_qset;
              prs = find_phrase_ranges text phrases in
          (\<forall>(s, e, l)\<in>set out. l = Token \<longrightarrow>
             s < e \<and> {s..<e} \<inter> covered prs = {}
           \<and> (\<forall>(ps, pe)\<in>set prs. \<not> (ps \<le> s \<and> e \<le> pe))
           \<and> (\<forall>(ps, pe, pl)\<in>set out. pl = Phrase \<longrightarrow> \<not> (ps \<le> s \<and> e \<le> pe)))
        \<and> (\<forall>m\<in>set (tok text). token_matches surf_qset read_qset m \<longrightarrow>
             (\<forall>i. mbegin m \<le> i \<and> i < mend m \<and> i \<notin> covered prs \<longrightarrow>
                  (\<exists>(s, e, l)\<in>set out. l = Token \<and> s \<le> i \<and> i < e))))"
proof -
  define out where "out = highlight_spans tok text phrases surf_qset read_qset"
  define prs where "prs = find_phrase_ranges text phrases"
  have tok_cov: "covered_by Token out
      = (token_positions tok text surf_qset read_qset - covered prs) \<inter> {i. text \<noteq> []}"
    and phr_cov: "covered_by Phrase out = covered prs \<inter> {i. text \<noteq> []}"
    by (simp_all add: out_def prs_def highlight_covered)
  have first: "s < e \<and> {s..<e} \<inter> covered prs = {}
          \<and> (\<forall>(ps, pe)\<in>set prs. \<not> (ps \<le> s \<and> e \<le> pe))
          \<and> (\<forall>(ps, pe, pl)\<in>set out. pl = Phrase \<longrightarrow> \<not> (ps \<le> s \<and> e \<le> pe))"
    if m: "(s, e, Token) \<in> set out" for s e
  proof -
    from m have lt: "s < e"
      unfolding out_def by (rule highlight_nonempty)
    from in_covered_by [OF m] tok_cov have dis: "{s..<e} \<inter> covered prs = {}"
      by auto
    from lt have s_in: "s \<in> {s..<e}" by simp
    have a: "\<not> (ps \<le> s \<and> e \<le> pe)" if "(ps, pe) \<in> set prs" for ps pe
    proof
      assume "ps \<le> s \<and> e \<le> pe"
      with lt have "s \<in> {ps..<pe}" by simp
      with in_covered [OF that] have "s \<in> covered prs" by blast
      with dis s_in show False by blast
    qed
    have b: "\<not> (ps \<le> s \<and> e \<le> pe)" if "(ps, pe, Phrase) \<in> set out" for ps pe
    proof
      assume "ps \<le> s \<and> e \<le> pe"
      with lt have "s \<in> {ps..<pe}" by simp
      with in_covered_by [OF that] phr_cov have "s \<in> covered prs" by blast
      with dis s_in show False by blast
    qed
    from lt dis a b show ?thesis by blast
  qed
  have second: "\<exists>(s, e, l)\<in>set out. l = Token \<and> s \<le> i \<and> i < e"
    if m: "m \<in> set (tok text)" and tm: "token_matches surf_qset read_qset m"
      and i: "mbegin m \<le> i" "i < mend m" "i \<notin> covered prs" for m i
  proof -
    from m i(2) assms(1) have "text \<noteq> []" by fastforce
    moreover from m tm i have "i \<in> token_positions tok text surf_qset read_qset - covered prs"
      by (auto simp: token_positions_def)
    ultimately have "i \<in> covered_by Token out"
      by (simp add: tok_cov)
    then obtain s e where "(s, e, Token) \<in> set out" and "s \<le> i" and "i < e"
      by (auto simp: covered_by_def split: if_splits)
    then show ?thesis
      by (intro bexI [of _ "(s, e, Token)"]) simp_all
  qed
  from first second have
    "(\<forall>(s, e, l)\<in>set out. l = Token \<longrightarrow>
             s < e \<and> {s..<e} \<inter> covered prs = {}
           \<and> (\<forall>(ps, pe)\<in>set prs. \<not> (ps \<le> s \<and> e \<le> pe))
           \<and> (\<forall>(ps, pe, pl)\<in>set out. pl = Phrase \<longrightarrow> \<not> (ps \<le> s \<and> e \<le> pe)))
        \<and> (\<forall>m\<in>set (tok text). token_matches surf_qset read_qset m \<longrightarrow>
             (\<forall>i. mbegin m \<le> i \<and> i < mend m \<and> i \<notin> covered prs \<longrightarrow>
                  (\<exists>(s, e, l)\<in>set out. l = Token \<and> s \<le> i \<and> i < e)))"
    by blast
  then show ?thesis
    unfolding Let_def out_def prs_def .
qed

lemma abcdef_spans:
  "highlight_spans tok_abcdef (asc ''abcdef'') [asc ''bc''] {asc ''ab'', asc ''cd''} {}
     = [(0, 1, Token), (1, 3, Phrase), (3, 4, Token)]"
  by code_simp

lemma abcdef_phrase_ranges: "find_phrase_ranges (asc ''abcdef'') [asc ''bc''] = [(1, 3)]"
  by code_simp

lemma abcdef_tokens_inside: "\<forall>m\<in>set (tok_abcdef (asc ''abcdef'')). mend m \<le> length (asc ''abcdef'')"
  by (simp add: tok_abcdef_def asc_def)

theorem highlight_spans_coverage_witness:
  "highlight_spans tok_abcdef (asc ''abcdef'') [asc ''bc''] {asc ''ab'', asc ''cd''} {}
     = [(0, 1, Token), (1, 3, Phrase), (3, 4, Token)]
   \<and> covered_by Phrase [(0, 1, Token), (1, 3, Phrase), (3, 4, Token)]
       \<union> covered_by Token [(0, 1, Token), (1, 3, Phrase), (3, 4, Token)]
     \<subseteq> phrase_positions (asc ''abcdef'') [asc ''bc'']
       \<union> token_positions tok_abcdef (asc ''abcdef'') {asc ''ab'', asc ''cd''} {}"
proof -
  note t = highlight_spans_coverage [of tok_abcdef "asc ''abcdef''" "[asc ''bc'']"
      "{asc ''ab'', asc ''cd''}" "{}", OF abcdef_tokens_inside, unfolded Let_def abcdef_spans]
  from abcdef_spans t [THEN conjunct2, THEN conjunct2] show ?thesis
    by (rule conjI)
qed

theorem highlight_phrase_precedence_witness:
  "highlight_spans tok_abcdef (asc ''abcdef'') [asc ''bc''] {asc ''ab'', asc ''cd''} {}
     = [(0, 1, Token), (1, 3, Phrase), (3, 4, Token)]
   \<and> (\<exists>(s::nat) (e::nat). (s, e, Token) \<in> set [(0, 1, Token), (1, 3, Phrase), (3, 4, Token)] \<and> s \<le> 3 \<and> 3 < e)"
proof -
  let ?m = "\<lparr>surface = asc ''cd'', reading_form = asc ''CD'', mbegin = 2, mend = 4\<rparr>"
  have m: "?m \<in> set (tok_abcdef (asc ''abcdef''))"
    by (simp add: tok_abcdef_def)
  have tm: "token_matches {asc ''ab'', asc ''cd''} {} ?m"
    by (simp add: token_matches_def py_or_def asc_def)
  have i: "mbegin ?m \<le> 3 \<and> 3 < mend ?m \<and> 3 \<notin> covered [(1, 3)]"
    by simp
  note t = highlight_phrase_precedence [of tok_abcdef "asc ''abcdef''" "[asc ''bc'']"
      "{asc ''ab'', asc ''cd''}" "{}", OF abcdef_tokens_inside,
      unfolded Let_def abcdef_spans abcdef_phrase_ranges, THEN conjunct2]
  note u = bspec [OF t m, THEN mp, OF tm, THEN spec, of 3, THEN mp, OF i]
  from u obtain x where x: "x \<in> set [(0::nat, 1::nat, Token), (1, 3, Phrase), (3, 4, Token)]"
    and p: "case x of (s, e, l) \<Rightarrow> l = Token \<and> s \<le> 3 \<and> 3 < e"
    by (rule bexE)
  obtain s e l where xe: "x = (s, e, l)"
    by (cases x)
  from p have "l = Token" and "s \<le> 3" and "3 < e"
    by (simp_all add: xe)
  with x have "(s, e, Token) \<in> set [(0, 1, Token), (1, 3, Phrase), (3, 4, Token)] \<and> s \<le> 3 \<and> 3 < e"
    by (simp only: xe)
  then have "\<exists>(s::nat) (e::nat). (s, e, Token) \<in> set [(0, 1, Token), (1, 3, Phrase), (3, 4, Token)] \<and> s \<le> 3 \<and> 3 < e"
    by blast
  with abcdef_spans show ?thesis
    by (rule conjI)
qed
end

